theory Spec2Isabelle
  imports Complex_Main "HOL-Library.Word"
begin

section \<open>Data model (models.py)\<close>

text \<open>
  Exceptions that the modelled code can meet.  \<open>ValueError\<close> is raised by
  \<open>collections.deque\<close> for a negative \<open>maxlen\<close>, \<open>UnicodeEncodeError\<close> by
  \<open>str.encode('utf-8')\<close> on a lone surrogate, \<open>AttributeError\<close> by reading an instance
  attribute that was never assigned, and \<open>ExternalError\<close> stands for any exception
  thrown by a Qt collaborator (clipboard, mime data, image conversion).
\<close>

datatype error = ValueError | UnicodeEncodeError | AttributeError | ExternalError

datatype ContentType = TEXT | IMAGE | RICH_TEXT | UNSUPPORTED

type_synonym byte = "8 word"

text \<open>
  A Python \<open>str\<close> is a sequence of code points (each below \<open>0x110000\<close>); \<open>bytes\<close> is
  a sequence of octets.  The field \<open>data\<close> of \<open>ClipboardContent\<close> is
  \<open>Union[str, bytes]\<close>.
\<close>

type_synonym pystr = "nat list"

datatype payload = StrData pystr | BytesData "byte list"

text \<open>
  \<open>ClipboardContent\<close>.  The \<open>preview\<close> field is display text only; no operation of
  the history store or of the clipboard monitor reads it, and it is left out.
\<close>

record ClipboardContent =
  content_type :: ContentType
  data :: payload
  timestamp :: nat
  size_bytes :: nat

text \<open>
  \<open>str.encode('utf-8')\<close>: one to four octets per code point; a surrogate
  (\<open>0xD800 .. 0xDFFF\<close>) cannot be encoded and raises.
\<close>

definition utf8_char :: "nat \<Rightarrow> error + byte list" where
  "utf8_char c =
     (if c < 0x80 then Inr [of_nat c]
      else if c < 0x800 then Inr [of_nat (0xC0 + c div 64), of_nat (0x80 + c mod 64)]
      else if 0xD800 \<le> c \<and> c < 0xE000 then Inl UnicodeEncodeError
      else if c < 0x10000 then
        Inr [of_nat (0xE0 + c div 4096), of_nat (0x80 + (c div 64) mod 64),
             of_nat (0x80 + c mod 64)]
      else
        Inr [of_nat (0xF0 + c div 262144), of_nat (0x80 + (c div 4096) mod 64),
             of_nat (0x80 + (c div 64) mod 64), of_nat (0x80 + c mod 64)])"

fun encode_utf8 :: "pystr \<Rightarrow> error + byte list" where
  "encode_utf8 [] = Inr []"
| "encode_utf8 (c # cs) =
     (case utf8_char c of
        Inl e \<Rightarrow> Inl e
      | Inr bs \<Rightarrow> (case encode_utf8 cs of Inl e \<Rightarrow> Inl e | Inr rest \<Rightarrow> Inr (bs @ rest)))"

text \<open>
  \<open>ClipboardContent._calculate_size\<close>: the UTF-8 length of a string, the length of a
  byte string.
\<close>

definition calculate_size :: "payload \<Rightarrow> error + nat" where
  "calculate_size d =
     (case d of
        StrData s \<Rightarrow> (case encode_utf8 s of Inl e \<Rightarrow> Inl e | Inr bs \<Rightarrow> Inr (length bs))
      | BytesData bs \<Rightarrow> Inr (length bs))"

text \<open>
  The constructor as the monitor calls it, \<open>ClipboardContent(content_type, data,
  timestamp)\<close>: \<open>size_bytes\<close> defaults to 0 and \<open>__post_init__\<close> replaces it by
  \<open>_calculate_size()\<close>, which raises for a string that cannot be encoded.
\<close>

definition new_ClipboardContent :: "ContentType \<Rightarrow> payload \<Rightarrow> nat \<Rightarrow> error + ClipboardContent" where
  "new_ClipboardContent ct d ts =
     (case calculate_size d of
        Inl e \<Rightarrow> Inl e
      | Inr n \<Rightarrow> Inr \<lparr>content_type = ct, data = d, timestamp = ts, size_bytes = n\<rparr>)"

text \<open>
  \<open>ClipboardContent.get_hash\<close>: the hex digest of SHA-256 over the UTF-8 encoding of a
  string, or over the bytes themselves.  \<open>hashlib.sha256(...).hexdigest()\<close> is the
  parameter \<open>H\<close>.  The third branch of the source (\<open>str(self.data)\<close>) needs a value
  that is neither \<open>str\<close> nor \<open>bytes\<close>, which the field's type excludes.
\<close>

definition get_hash :: "(byte list \<Rightarrow> string) \<Rightarrow> ClipboardContent \<Rightarrow> error + string" where
  "get_hash H c =
     (case data c of
        StrData s \<Rightarrow> (case encode_utf8 s of Inl e \<Rightarrow> Inl e | Inr bs \<Rightarrow> Inr (H bs))
      | BytesData bs \<Rightarrow> Inr (H bs))"

section \<open>The history store (history_manager.py)\<close>

text \<open>
  \<open>collections.deque\<close> with a bound: \<open>items\<close> from left (index 0) to right, and the
  \<open>maxlen\<close> the deque was created with.
\<close>

record 'a deque =
  items :: "'a list"
  maxlen :: nat

text \<open>
  \<open>deque(iterable, maxlen=m)\<close>: raises \<open>ValueError\<close> for a negative \<open>m\<close>; otherwise
  the elements are appended on the right one by one, so only the last \<open>m\<close> remain.
\<close>

definition new_deque :: "'a list \<Rightarrow> int \<Rightarrow> error + 'a deque" where
  "new_deque xs m =
     (if m < 0 then Inl ValueError
      else Inr \<lparr>items = drop (length xs - nat m) xs, maxlen = nat m\<rparr>)"

text \<open>
  \<open>deque.appendleft\<close>: the element is put on the left and, when the bound is exceeded,
  one element is dropped on the right.
\<close>

definition appendleft :: "'a \<Rightarrow> 'a deque \<Rightarrow> 'a deque" where
  "appendleft x d =
     (if length (items d) + 1 > maxlen d
      then d\<lparr>items := butlast (x # items d)\<rparr>
      else d\<lparr>items := x # items d\<rparr>)"

record HistoryManager =
  max_depth :: int
  history :: "ClipboardContent deque"

definition HistoryManager_init :: "int \<Rightarrow> error + HistoryManager" where
  "HistoryManager_init k =
     (case new_deque [] k of
        Inl e \<Rightarrow> Inl e
      | Inr d \<Rightarrow> Inr \<lparr>max_depth = k, history = d\<rparr>)"

text \<open>
  The search loop of \<open>add_item\<close>: the index of the first item whose hash equals
  \<open>content_hash\<close>, counting from \<open>i\<close>; an item whose hash cannot be computed raises
  when the loop reaches it.
\<close>

fun find_existing :: "(byte list \<Rightarrow> string) \<Rightarrow> string \<Rightarrow> nat \<Rightarrow> ClipboardContent list \<Rightarrow> error + nat option" where
  "find_existing H h i [] = Inr None"
| "find_existing H h i (item # rest) =
     (case get_hash H item of
        Inl e \<Rightarrow> Inl e
      | Inr h' \<Rightarrow> if h' = h then Inr (Some i) else find_existing H h (Suc i) rest)"

text \<open>\<open>temp_list.pop(i)\<close> for an index inside the list.\<close>

definition pop_index :: "nat \<Rightarrow> 'a list \<Rightarrow> 'a list" where
  "pop_index i xs = take i xs @ drop (Suc i) xs"

text \<open>
  \<open>HistoryManager.add_item\<close>.  Every statement that can raise comes before the first
  assignment to \<open>self._history\<close>, so a raising call leaves the store as it was.
\<close>

definition add_item :: "(byte list \<Rightarrow> string) \<Rightarrow> ClipboardContent \<Rightarrow> HistoryManager \<Rightarrow> error + HistoryManager" where
  "add_item H content s =
     (case get_hash H content of
        Inl e \<Rightarrow> Inl e
      | Inr content_hash \<Rightarrow>
          (case find_existing H content_hash 0 (items (history s)) of
             Inl e \<Rightarrow> Inl e
           | Inr None \<Rightarrow> Inr (s\<lparr>history := appendleft content (history s)\<rparr>)
           | Inr (Some existing_index) \<Rightarrow>
               (case new_deque (pop_index existing_index (items (history s))) (max_depth s) of
                  Inl e \<Rightarrow> Inl e
                | Inr d \<Rightarrow> Inr (s\<lparr>history := appendleft content d\<rparr>))))"

definition get_history :: "HistoryManager \<Rightarrow> ClipboardContent list" where
  "get_history s = items (history s)"

text \<open>The slice \<open>xs[:d]\<close>; a negative \<open>d\<close> counts from the right end.\<close>

definition slice_to :: "'a list \<Rightarrow> int \<Rightarrow> 'a list" where
  "slice_to xs d = (if 0 \<le> d then take (nat d) xs else take (length xs - nat (- d)) xs)"

text \<open>
  \<open>HistoryManager.set_max_depth\<close>.  \<open>self._max_depth\<close> is assigned first; when the
  deque constructor then raises, the error comes with the store it leaves behind.
\<close>

definition set_max_depth :: "int \<Rightarrow> HistoryManager \<Rightarrow> (error \<times> HistoryManager) + HistoryManager" where
  "set_max_depth depth s =
     (let s1 = s\<lparr>max_depth := depth\<rparr> in
      if int (length (items (history s1))) > depth then
        (case new_deque (slice_to (items (history s1)) depth) depth of
           Inl e \<Rightarrow> Inl (e, s1)
         | Inr d \<Rightarrow> Inr (s1\<lparr>history := d\<rparr>))
      else
        (case new_deque (items (history s1)) depth of
           Inl e \<Rightarrow> Inl (e, s1)
         | Inr d \<Rightarrow> Inr (s1\<lparr>history := d\<rparr>)))"

definition clear_history :: "HistoryManager \<Rightarrow> HistoryManager" where
  "clear_history s = s\<lparr>history := (history s)\<lparr>items := []\<rparr>\<rparr>"

definition get_item :: "int \<Rightarrow> HistoryManager \<Rightarrow> ClipboardContent option" where
  "get_item index s =
     (if 0 \<le> index \<and> index < int (length (items (history s)))
      then Some (items (history s) ! nat index)
      else None)"

text \<open>
  A run of \<open>add_item\<close> calls on one store, in order; the first call that raises ends
  the run with its error.
\<close>

fun add_items :: "(byte list \<Rightarrow> string) \<Rightarrow> ClipboardContent list \<Rightarrow> HistoryManager \<Rightarrow> error + HistoryManager" where
  "add_items H [] s = Inr s"
| "add_items H (c # cs) s =
     (case add_item H c s of Inl e \<Rightarrow> Inl e | Inr s' \<Rightarrow> add_items H cs s')"

text \<open>An entry has a fingerprint when \<open>get_hash\<close> returns for it.\<close>

definition hashable :: "(byte list \<Rightarrow> string) \<Rightarrow> ClipboardContent \<Rightarrow> bool" where
  "hashable H c = (case get_hash H c of Inl e \<Rightarrow> False | Inr h \<Rightarrow> True)"

text \<open>
  The states of a store that its operations produce when they return: the capacity is
  not negative, the deque carries the capacity as its bound and respects it, every
  stored entry has a fingerprint, and no two stored entries share one.
\<close>

definition store_inv :: "(byte list \<Rightarrow> string) \<Rightarrow> HistoryManager \<Rightarrow> bool" where
  "store_inv H s =
     (0 \<le> max_depth s \<and> maxlen (history s) = nat (max_depth s) \<and>
      length (items (history s)) \<le> maxlen (history s) \<and>
      list_all (hashable H) (items (history s)) \<and>
      distinct (map (get_hash H) (items (history s))))"

section \<open>The clipboard watcher (clipboard_monitor.py)\<close>

definition MAX_CONTENT_SIZE_BYTES :: nat where
  "MAX_CONTENT_SIZE_BYTES = 10 * 1024 * 1024"

text \<open>
  What the watcher reads from Qt.  A \<open>QImage\<close> is known here only by what saving it as
  PNG into a buffer gives: the bytes, or an exception.  A \<open>QMimeData\<close> is known by the
  answers of the six methods \<open>_extract_content\<close> calls, each of which may raise.
\<close>

datatype QImage = QImage (save_png: "error + byte list")

record QMimeData =
  hasImage :: "error + bool"
  imageData :: "error + QImage option"
  hasHtml :: "error + bool"
  html :: "error + pystr"
  hasText :: "error + bool"
  plain_text :: "error + pystr"

definition UNSUPPORTED_PLACEHOLDER :: pystr where
  "UNSUPPORTED_PLACEHOLDER = map of_char ''[Unsupported Content]''"

text \<open>
  \<open>ClipboardMonitor._extract_content\<close>, in three steps as in the source: the image
  check, then the HTML check, then the plain-text check and the \<open>UNSUPPORTED\<close>
  fallback.  The result \<open>None\<close> is the source's \<open>(None, None)\<close>.  An exception of the
  image conversion is caught by the inner handler and one of any other call by the outer
  handler; both return \<open>(None, None)\<close>.
\<close>

definition extract_plain_text :: "QMimeData \<Rightarrow> (ContentType \<times> payload) option" where
  "extract_plain_text mime_data =
     (case hasText mime_data of
        Inl e \<Rightarrow> None
      | Inr has \<Rightarrow>
          if has then
            (case plain_text mime_data of
               Inl e \<Rightarrow> None
             | Inr t \<Rightarrow> if t \<noteq> [] then Some (TEXT, StrData t)
                        else Some (UNSUPPORTED, StrData UNSUPPORTED_PLACEHOLDER))
          else Some (UNSUPPORTED, StrData UNSUPPORTED_PLACEHOLDER))"

definition extract_html :: "QMimeData \<Rightarrow> (ContentType \<times> payload) option" where
  "extract_html mime_data =
     (case hasHtml mime_data of
        Inl e \<Rightarrow> None
      | Inr has \<Rightarrow>
          if has then
            (case html mime_data of
               Inl e \<Rightarrow> None
             | Inr h \<Rightarrow> if h \<noteq> [] then Some (RICH_TEXT, StrData h)
                        else extract_plain_text mime_data)
          else extract_plain_text mime_data)"

definition extract_content :: "QMimeData \<Rightarrow> (ContentType \<times> payload) option" where
  "extract_content mime_data =
     (case hasImage mime_data of
        Inl e \<Rightarrow> None
      | Inr has \<Rightarrow>
          if has then
            (case imageData mime_data of
               Inl e \<Rightarrow> None
             | Inr None \<Rightarrow> extract_html mime_data
             | Inr (Some qimage) \<Rightarrow>
                 (case save_png qimage of
                    Inl e \<Rightarrow> None
                  | Inr image_bytes \<Rightarrow> Some (IMAGE, BytesData image_bytes)))
          else extract_html mime_data)"

text \<open>
  \<open>ClipboardMonitor._estimate_content_size\<close>; an exception while encoding is caught
  and gives 0.
\<close>

definition estimate_content_size :: "ContentType \<Rightarrow> payload \<Rightarrow> nat" where
  "estimate_content_size ct d =
     (case ct of
        IMAGE \<Rightarrow> (case d of BytesData bs \<Rightarrow> length bs | StrData s \<Rightarrow> 0)
      | UNSUPPORTED \<Rightarrow> 0
      | _ \<Rightarrow> (case d of
                StrData s \<Rightarrow> (case encode_utf8 s of Inl e \<Rightarrow> 0 | Inr bs \<Rightarrow> length bs)
              | BytesData bs \<Rightarrow> 0))"

record ClipboardMonitor =
  last_hash :: "string option"
  history_manager :: HistoryManager

definition ClipboardMonitor_init :: "HistoryManager \<Rightarrow> ClipboardMonitor" where
  "ClipboardMonitor_init hm = \<lparr>last_hash = None, history_manager = hm\<rparr>"

text \<open>
  \<open>ClipboardMonitor._on_clipboard_change\<close>.  \<open>now\<close> is \<open>datetime.now()\<close> and
  \<open>clipboard\<close> is what \<open>self._clipboard.mimeData()\<close> does: it raises, returns
  \<open>None\<close>, or returns the mime data.  The handler catches every exception, so it always
  returns the watcher's next state; log lines are not part of the state.
\<close>

definition on_clipboard_change ::
  "(byte list \<Rightarrow> string) \<Rightarrow> nat \<Rightarrow> error + QMimeData option \<Rightarrow> ClipboardMonitor \<Rightarrow> ClipboardMonitor" where
  "on_clipboard_change H now clipboard s =
     (case clipboard of
        Inl e \<Rightarrow> s
      | Inr None \<Rightarrow> s
      | Inr (Some mime_data) \<Rightarrow>
          (case extract_content mime_data of
             None \<Rightarrow> s
           | Some (ct, d) \<Rightarrow>
               if estimate_content_size ct d > MAX_CONTENT_SIZE_BYTES then s
               else
                 (case new_ClipboardContent ct d now of
                    Inl e \<Rightarrow> s
                  | Inr content \<Rightarrow>
                      (case get_hash H content of
                         Inl e \<Rightarrow> s
                       | Inr current_hash \<Rightarrow>
                           if Some current_hash = last_hash s then s
                           else
                             (let s1 = s\<lparr>last_hash := Some current_hash\<rparr> in
                              case add_item H content (history_manager s1) of
                                Inl e \<Rightarrow> s1
                              | Inr hm \<Rightarrow> s1\<lparr>history_manager := hm\<rparr>)))))"

text \<open>
  The two calls \<open>_on_clipboard_change\<close> makes after the size check, in the order it
  makes them: the \<open>ClipboardContent\<close> constructor (line 138), listed with the object
  it returned, and \<open>self._history_manager.add_item\<close> (line 151), listed with its
  argument.  A constructor call that raises returns no object and is not listed.
\<close>

datatype watcher_call = ConstructContent ClipboardContent | CallAddItem ClipboardContent

definition on_clipboard_change_calls ::
  "(byte list \<Rightarrow> string) \<Rightarrow> nat \<Rightarrow> error + QMimeData option \<Rightarrow> ClipboardMonitor \<Rightarrow> watcher_call list" where
  "on_clipboard_change_calls H now clipboard s =
     (case clipboard of
        Inl e \<Rightarrow> []
      | Inr None \<Rightarrow> []
      | Inr (Some mime_data) \<Rightarrow>
          (case extract_content mime_data of
             None \<Rightarrow> []
           | Some (ct, d) \<Rightarrow>
               if estimate_content_size ct d > MAX_CONTENT_SIZE_BYTES then []
               else
                 (case new_ClipboardContent ct d now of
                    Inl e \<Rightarrow> []
                  | Inr content \<Rightarrow>
                      (case get_hash H content of
                         Inl e \<Rightarrow> [ConstructContent content]
                       | Inr current_hash \<Rightarrow>
                           if Some current_hash = last_hash s then [ConstructContent content]
                           else [ConstructContent content, CallAddItem content]))))"

text \<open>A run of notifications, each with its time and its clipboard reading.\<close>

fun notifications ::
  "(byte list \<Rightarrow> string) \<Rightarrow> (nat \<times> (error + QMimeData option)) list \<Rightarrow> ClipboardMonitor \<Rightarrow> ClipboardMonitor" where
  "notifications H [] s = s"
| "notifications H ((now, clipboard) # ns) s =
     notifications H ns (on_clipboard_change H now clipboard s)"

text \<open>The size of an entry's payload stays within the ceiling.\<close>

definition within_ceiling :: "ClipboardContent \<Rightarrow> bool" where
  "within_ceiling c =
     (case calculate_size (data c) of
        Inl e \<Rightarrow> False
      | Inr n \<Rightarrow> n \<le> MAX_CONTENT_SIZE_BYTES)"

section \<open>Permission monitoring (main_application.py)\<close>

text \<open>
  The calls the coordinator makes on its collaborators, in the order they are made:
  \<open>hotkey_handler.unregister_hotkey()\<close>, \<open>menu_bar_manager.update_menu()\<close>,
  \<open>ui_manager.show_permission_dialog("accessibility")\<close> (the permission-revoked
  notification) and \<open>ui_manager.show_restart_dialog()\<close>.
\<close>

datatype ui_call = UnregisterHotkey | UpdateMenu | ShowPermissionDialog | ShowRestartDialog

text \<open>
  The fields of \<open>MainApplication\<close> that the permission logic reads and writes.
  \<open>_initial_permission_state\<close> does not exist until \<open>_start_permission_monitoring\<close>
  assigns it.  \<open>time.time()\<close> values are taken as reals.  \<open>calls\<close> is the trace of
  collaborator calls made so far, oldest first.
\<close>

record MainApplication =
  hotkey_registered :: bool
  permission_monitoring_active :: bool
  permission_check_count :: int
  max_permission_checks :: int
  permission_last_check_time :: real
  revocation_check_interval :: real
  revocation_last_check_time :: real
  last_permission_state :: bool
  permission_revocation_notified :: bool
  initial_permission_state :: "bool option"
  calls :: "ui_call list"

text \<open>
  The part of \<open>__init__\<close> that sets these fields; \<open>accessibility\<close> is
  \<open>permission_manager.status.accessibility\<close> at that moment.
\<close>

definition MainApplication_init :: "bool \<Rightarrow> MainApplication" where
  "MainApplication_init accessibility =
     \<lparr>hotkey_registered = False,
      permission_monitoring_active = False,
      permission_check_count = 0,
      max_permission_checks = 0,
      permission_last_check_time = 0,
      revocation_check_interval = 5,
      revocation_last_check_time = 0,
      last_permission_state = accessibility,
      permission_revocation_notified = False,
      initial_permission_state = None,
      calls = []\<rparr>"

text \<open>
  \<open>_register_hotkey\<close>; \<open>success\<close> is what \<open>hotkey_handler.register_hotkey\<close> returns.
\<close>

definition register_hotkey :: "bool \<Rightarrow> MainApplication \<Rightarrow> MainApplication" where
  "register_hotkey success s =
     (if success then
        s\<lparr>hotkey_registered := True, last_permission_state := True,
          permission_revocation_notified := False\<rparr>
      else s\<lparr>hotkey_registered := False\<rparr>)"

text \<open>
  \<open>_start_permission_monitoring\<close>; \<open>now\<close> is its \<open>time.time()\<close> and \<open>probe\<close> is
  what its call of \<open>check_accessibility_permission()\<close> returns.
\<close>

definition start_permission_monitoring :: "real \<Rightarrow> bool \<Rightarrow> MainApplication \<Rightarrow> MainApplication" where
  "start_permission_monitoring now probe s =
     (if permission_monitoring_active s then s
      else s\<lparr>initial_permission_state := Some probe,
             permission_check_count := 0,
             max_permission_checks := 30,
             permission_monitoring_active := True,
             permission_last_check_time := now,
             last_permission_state := probe\<rparr>)"

text \<open>
  \<open>_handle_permission_loss\<close>.  \<open>unregister_hotkey\<close> catches its own exceptions, and
  an exception of \<open>show_permission_dialog\<close> is caught here and only logged, so the
  state after the call does not depend on it.  The dialogs are modal; the handler is
  taken to run to its end before the next tick.
\<close>

definition handle_permission_loss :: "real \<Rightarrow> bool \<Rightarrow> MainApplication \<Rightarrow> MainApplication" where
  "handle_permission_loss now probe s =
     (let s1 = s\<lparr>last_permission_state := False\<rparr>;
          s2 = (if hotkey_registered s1
                then s1\<lparr>hotkey_registered := False, calls := calls s1 @ [UnregisterHotkey]\<rparr>
                else s1);
          s3 = s2\<lparr>calls := calls s2 @ [UpdateMenu]\<rparr>;
          s4 = (if \<not> permission_revocation_notified s3
                then s3\<lparr>permission_revocation_notified := True,
                        calls := calls s3 @ [ShowPermissionDialog]\<rparr>
                else s3)
      in if \<not> permission_monitoring_active s4
         then start_permission_monitoring now probe s4
         else s4)"

text \<open>
  \<open>_check_permission_revocation\<close>; \<open>has_permission\<close> is the result of its probe, and
  \<open>now\<close>, \<open>probe\<close> are handed on to \<open>_start_permission_monitoring\<close>.
\<close>

definition check_permission_revocation ::
  "bool \<Rightarrow> real \<Rightarrow> bool \<Rightarrow> MainApplication \<Rightarrow> MainApplication" where
  "check_permission_revocation has_permission now probe s =
     (if has_permission then
        s\<lparr>last_permission_state := True, permission_revocation_notified := False\<rparr>
      else if last_permission_state s then handle_permission_loss now probe s
      else s\<lparr>last_permission_state := False\<rparr>)"

text \<open>
  \<open>_check_permission_status\<close>.  The \<open>hasattr\<close> guard never fires, since \<open>__init__\<close>
  assigns \<open>_permission_check_count\<close>.  Reading \<open>_initial_permission_state\<close> before it
  was ever assigned raises \<open>AttributeError\<close>, after the counter was incremented.
\<close>

definition check_permission_status ::
  "bool \<Rightarrow> MainApplication \<Rightarrow> (error \<times> MainApplication) + MainApplication" where
  "check_permission_status has_permission s =
     (let s1 = s\<lparr>permission_check_count := permission_check_count s + 1\<rparr> in
      case initial_permission_state s1 of
        None \<Rightarrow> Inl (AttributeError, s1)
      | Some initial \<Rightarrow>
          (let s2 = s1\<lparr>last_permission_state := has_permission\<rparr>;
               s3 = (if has_permission then s2\<lparr>permission_revocation_notified := False\<rparr>
                     else s2)
           in if has_permission \<and> \<not> initial then
                Inr (s3\<lparr>permission_monitoring_active := False,
                        calls := calls s3 @ [ShowRestartDialog]\<rparr>)
              else if permission_check_count s3 \<ge> max_permission_checks s3 then
                Inr (s3\<lparr>permission_monitoring_active := False\<rparr>)
              else Inr s3))"

text \<open>
  What one firing of the timer meets: \<open>tick_time\<close> is \<open>time.time()\<close> in
  \<open>_on_timer_tick\<close>, \<open>has_permission\<close> the result of the capability probe of the check
  the tick performs, and \<open>monitor_time\<close>, \<open>monitor_probe\<close> the clock and the probe
  read by \<open>_start_permission_monitoring\<close> when the tick gets there.
\<close>

record tick =
  tick_time :: real
  has_permission :: bool
  monitor_time :: real
  monitor_probe :: bool

definition on_timer_tick :: "tick \<Rightarrow> MainApplication \<Rightarrow> (error \<times> MainApplication) + MainApplication" where
  "on_timer_tick t s =
     (if permission_monitoring_active s then
        (if tick_time t - permission_last_check_time s \<ge> 2 then
           check_permission_status (has_permission t)
             (s\<lparr>permission_last_check_time := tick_time t\<rparr>)
         else Inr s)
      else if tick_time t - revocation_last_check_time s \<ge> revocation_check_interval s then
        Inr (check_permission_revocation (has_permission t) (monitor_time t) (monitor_probe t)
               (s\<lparr>revocation_last_check_time := tick_time t\<rparr>))
      else Inr s)"

text \<open>A run of timer ticks; an exception ends it.\<close>

fun timer_ticks :: "tick list \<Rightarrow> MainApplication \<Rightarrow> (error \<times> MainApplication) + MainApplication" where
  "timer_ticks [] s = Inr s"
| "timer_ticks (t # ts) s =
     (case on_timer_tick t s of Inl e \<Rightarrow> Inl e | Inr s' \<Rightarrow> timer_ticks ts s')"

text \<open>The number of permission-revoked notifications in a trace.\<close>

definition revoked_notifications :: "MainApplication \<Rightarrow> nat" where
  "revoked_notifications s = length (filter (\<lambda>c. c = ShowPermissionDialog) (calls s))"

text \<open>
  Ticks that each come at least two seconds after the check before them, the first
  one after time \<open>t0\<close>: each of them is due for a grant-polling check.
\<close>

fun spaced :: "real \<Rightarrow> tick list \<Rightarrow> bool" where
  "spaced t0 [] = True"
| "spaced t0 (t # ts) = (tick_time t - t0 \<ge> 2 \<and> spaced (tick_time t) ts)"

text \<open>
  The state a run ends in, whether it ended normally or with an exception.
\<close>

definition state_after :: "(error \<times> MainApplication) + MainApplication \<Rightarrow> MainApplication" where
  "state_after r = (case r of Inl (e, s) \<Rightarrow> s | Inr s \<Rightarrow> s)"

text \<open>A tick on which the capability probe answers that the permission is denied.\<close>

definition denied :: "tick \<Rightarrow> bool" where
  "denied t = (\<not> has_permission t)"

text \<open>
  The states of grant polling that started from a denied capability and has seen no
  grant since: 30 checks allowed, polling active exactly while fewer were made.
\<close>

definition denied_polling :: "MainApplication \<Rightarrow> bool" where
  "denied_polling s =
     (max_permission_checks s = 30 \<and> initial_permission_state s = Some False \<and>
      \<not> last_permission_state s \<and>
      0 \<le> permission_check_count s \<and> permission_check_count s \<le> 30 \<and>
      permission_monitoring_active s = (permission_check_count s < 30))"


section \<open>Example inputs\<close>

text \<open>
  A stand-in for the digest in worked examples: it tells byte strings apart by their
  length only.
\<close>

definition length_digest :: "byte list \<Rightarrow> string" where
  "length_digest bs = replicate (length bs) CHR ''0''"

text \<open>
  Three entries: the text \<open>a\<close>, a two-byte image, and the same text \<open>a\<close> copied
  later as rich text.
\<close>

definition entry_a :: ClipboardContent where
  "entry_a = \<lparr>content_type = TEXT, data = StrData [97], timestamp = 1, size_bytes = 1\<rparr>"

definition entry_img :: ClipboardContent where
  "entry_img = \<lparr>content_type = IMAGE, data = BytesData [1, 2], timestamp = 2, size_bytes = 2\<rparr>"

definition entry_a_rich :: ClipboardContent where
  "entry_a_rich = \<lparr>content_type = RICH_TEXT, data = StrData [97], timestamp = 3, size_bytes = 1\<rparr>"

text \<open>A store of capacity 5 that holds the image (most recent) and the text.\<close>

definition store_img_a :: HistoryManager where
  "store_img_a = \<lparr>max_depth = 5, history = \<lparr>items = [entry_img, entry_a], maxlen = 5\<rparr>\<rparr>"

text \<open>The empty store of capacity 2.\<close>

definition empty_store2 :: HistoryManager where
  "empty_store2 = \<lparr>max_depth = 2, history = \<lparr>items = [], maxlen = 2\<rparr>\<rparr>"

text \<open>
  Clipboard readings: the plain text \<open>a\<close>; the same \<open>a\<close> offered as HTML; an image
  whose conversion to PNG raises, offered together with HTML and plain text; and an
  image of 10 MiB and one byte.
\<close>

definition mime_text_a :: QMimeData where
  "mime_text_a =
     \<lparr>hasImage = Inr False, imageData = Inr None, hasHtml = Inr False, html = Inr [],
      hasText = Inr True, plain_text = Inr [97]\<rparr>"

definition mime_html_a :: QMimeData where
  "mime_html_a =
     \<lparr>hasImage = Inr False, imageData = Inr None, hasHtml = Inr True, html = Inr [97],
      hasText = Inr True, plain_text = Inr [97]\<rparr>"

definition mime_bad_image :: QMimeData where
  "mime_bad_image =
     \<lparr>hasImage = Inr True, imageData = Inr (Some (QImage (Inl ExternalError))),
      hasHtml = Inr True, html = Inr [60, 98, 62, 97],
      hasText = Inr True, plain_text = Inr [97]\<rparr>"

definition mime_huge_image :: QMimeData where
  "mime_huge_image =
     \<lparr>hasImage = Inr True, imageData = Inr (Some (QImage (Inr (replicate 10485761 0)))),
      hasHtml = Inr False, html = Inr [], hasText = Inr False, plain_text = Inr []\<rparr>"

text \<open>
  A two-byte image that converts, offered together with HTML and plain text; and a
  clipboard whose \<open>hasImage()\<close> raises.
\<close>

definition mime_image_and_html :: QMimeData where
  "mime_image_and_html =
     \<lparr>hasImage = Inr True, imageData = Inr (Some (QImage (Inr [1, 2]))),
      hasHtml = Inr True, html = Inr [97], hasText = Inr True, plain_text = Inr [97]\<rparr>"

definition mime_locked :: QMimeData where
  "mime_locked =
     \<lparr>hasImage = Inl ExternalError, imageData = Inr None,
      hasHtml = Inr True, html = Inr [97], hasText = Inr True, plain_text = Inr [97]\<rparr>"

text \<open>A watcher that has seen nothing yet, over the empty store of capacity 2.\<close>

definition fresh_monitor :: ClipboardMonitor where
  "fresh_monitor = ClipboardMonitor_init empty_store2"

text \<open>
  The coordinator after a successful hotkey registration at start-up, and four ticks
  six seconds apart on which the capability probe answers true, false, false, false.
\<close>

definition active_app :: MainApplication where
  "active_app = register_hotkey True (MainApplication_init False)"

definition tick_at :: "real \<Rightarrow> bool \<Rightarrow> tick" where
  "tick_at t p = \<lparr>tick_time = t, has_permission = p, monitor_time = t, monitor_probe = p\<rparr>"


text \<open>\<open>n\<close> ticks at seconds 2, 4, ..., on each of which the permission is denied.\<close>

definition polling_ticks :: "nat \<Rightarrow> tick list" where
  "polling_ticks n = map (\<lambda>i. tick_at (2 * real i) False) [1..<Suc n]"

section \<open>Properties of the history store\<close>

lemma hashable_iff: "hashable H c \<longleftrightarrow> (\<exists>h. get_hash H c = Inr h)"
  by (simp add: hashable_def split: sum.splits)

lemma find_existing_none:
  "list_all (hashable H) xs \<Longrightarrow> Inr h \<notin> get_hash H ` set xs \<Longrightarrow> find_existing H h i xs = Inr None"
  by (induction xs arbitrary: i) (auto simp: hashable_iff)

lemma find_existing_some:
  "list_all (hashable H) xs \<Longrightarrow> Inr h \<in> get_hash H ` set xs \<Longrightarrow>
   \<exists>j. find_existing H h i xs = Inr (Some (i + j)) \<and> j < length xs \<and>
       get_hash H (xs ! j) = Inr h \<and> (\<forall>k<j. get_hash H (xs ! k) \<noteq> Inr h)"
proof (induction xs arbitrary: i)
  case Nil
  then show ?case by simp
next
  case (Cons x xs)
  from Cons.prems(1) obtain hx where hx: "get_hash H x = Inr hx"
    by (auto simp: hashable_iff)
  show ?case
  proof (cases "hx = h")
    case True
    with hx show ?thesis by (intro exI[of _ 0]) simp
  next
    case False
    with Cons.prems hx have "Inr h \<in> get_hash H ` set xs" by auto
    with Cons.IH[of "Suc i"] Cons.prems(1)
    obtain j where j: "find_existing H h (Suc i) xs = Inr (Some (Suc i + j))" "j < length xs"
      "get_hash H (xs ! j) = Inr h" "\<forall>k<j. get_hash H (xs ! k) \<noteq> Inr h"
      by auto
    show ?thesis
    proof (intro exI[of _ "Suc j"] conjI allI impI)
      show "find_existing H h i (x # xs) = Inr (Some (i + Suc j))"
        using hx False j(1) by simp
      show "Suc j < length (x # xs)" using j(2) by simp
      show "get_hash H ((x # xs) ! Suc j) = Inr h" using j(3) by simp
      fix k assume "k < Suc j"
      then show "get_hash H ((x # xs) ! k) \<noteq> Inr h"
        using j(4) hx False by (cases k) auto
    qed
  qed
qed

text \<open>
  Where the keys are pairwise different, popping the position of a key is the same as
  filtering that key out.
\<close>

lemma pop_index_filter:
  assumes "distinct (map f xs)" "j < length xs" "f (xs ! j) = v"
  shows "pop_index j xs = filter (\<lambda>c. f c \<noteq> v) xs"
  using assms
proof (induction xs arbitrary: j)
  case Nil
  then show ?case by simp
next
  case (Cons x xs)
  show ?case
  proof (cases j)
    case 0
    with Cons.prems have "f x = v" "v \<notin> f ` set xs" by auto
    then have "\<forall>c\<in>set xs. f c \<noteq> v" by blast
    then have "filter (\<lambda>c. f c \<noteq> v) xs = xs" by simp
    with 0 \<open>f x = v\<close> show ?thesis by (simp add: pop_index_def)
  next
    case (Suc j')
    with Cons.prems have "f x \<noteq> v" by (auto simp: image_iff)
    moreover have "pop_index j' xs = filter (\<lambda>c. f c \<noteq> v) xs"
      using Cons.IH[of j'] Cons.prems Suc by simp
    ultimately show ?thesis using Suc by (simp add: pop_index_def)
  qed
qed

lemma filter_neq_length:
  assumes "distinct (map f xs)" "v \<in> f ` set xs"
  shows "Suc (length (filter (\<lambda>c. f c \<noteq> v) xs)) = length xs"
  using assms
proof (induction xs)
  case Nil
  then show ?case by simp
next
  case (Cons x xs)
  show ?case
  proof (cases "f x = v")
    case True
    with Cons.prems have "v \<notin> f ` set xs" by simp
    then have "\<forall>c\<in>set xs. f c \<noteq> v" by blast
    then have "filter (\<lambda>c. f c \<noteq> v) xs = xs" by simp
    with True show ?thesis by simp
  next
    case False
    with Cons.prems have "v \<in> f ` set xs" "distinct (map f xs)" by auto
    with Cons.IH False show ?thesis by simp
  qed
qed

lemma filter_neq_remove1:
  assumes "distinct (map f xs)" "c \<in> set xs"
  shows "filter (\<lambda>x. f x \<noteq> f c) xs = remove1 c xs"
  using assms
proof (induction xs)
  case Nil
  then show ?case by simp
next
  case (Cons x xs)
  show ?case
  proof (cases "x = c")
    case True
    with Cons.prems have "f c \<notin> f ` set xs" by simp
    then have "\<forall>y\<in>set xs. f y \<noteq> f c" by (metis imageI)
    then have "filter (\<lambda>x. f x \<noteq> f c) xs = xs" by simp
    with True show ?thesis by simp
  next
    case False
    with Cons.prems have c: "c \<in> set xs" and d: "distinct (map f xs)" by auto
    from Cons.prems c have "f x \<noteq> f c" by auto
    with Cons.IH[OF d c] False show ?thesis by simp
  qed
qed

text \<open>The two paths of \<open>add_item\<close> on a store in a state of its own making.\<close>

lemma add_item_promote_eq:
  assumes inv: "store_inv H s" and ex: "get_hash H X \<in> get_hash H ` set (get_history s)"
  shows "add_item H X s =
    Inr (s\<lparr>history := \<lparr>items = X # filter (\<lambda>c. get_hash H c \<noteq> get_hash H X) (get_history s),
                        maxlen = nat (max_depth s)\<rparr>\<rparr>)"
proof -
  let ?xs = "items (history s)"
  from inv have hs: "list_all (hashable H) ?xs" and d: "distinct (map (get_hash H) ?xs)"
    and len: "length ?xs \<le> nat (max_depth s)" and nn: "0 \<le> max_depth s"
    by (simp_all add: store_inv_def)
  from ex hs obtain h where h: "get_hash H X = Inr h"
    by (auto simp: get_history_def list_all_iff hashable_iff)
  with ex have "Inr h \<in> get_hash H ` set ?xs" by (simp add: get_history_def)
  from find_existing_some[OF hs this, of 0]
  obtain j where j: "find_existing H h 0 ?xs = Inr (Some j)" "j < length ?xs"
    "get_hash H (?xs ! j) = Inr h" by auto
  have pf: "pop_index j ?xs = filter (\<lambda>c. get_hash H c \<noteq> Inr h) ?xs"
    by (rule pop_index_filter[OF d j(2) j(3)])
  let ?ys = "filter (\<lambda>c. get_hash H c \<noteq> Inr h) ?xs"
  have lp: "length ?ys = length ?xs - 1"
    using j(2) by (simp add: pop_index_def min_def flip: pf)
  have nd: "new_deque ?ys (max_depth s) = Inr \<lparr>items = ?ys, maxlen = nat (max_depth s)\<rparr>"
    using nn len lp by (simp add: new_deque_def)
  have "\<not> length ?ys + 1 > nat (max_depth s)"
    using len lp j(2) by linarith
  then have al: "appendleft X \<lparr>items = ?ys, maxlen = nat (max_depth s)\<rparr> =
      \<lparr>items = X # ?ys, maxlen = nat (max_depth s)\<rparr>"
    by (simp add: appendleft_def)
  show ?thesis
    by (simp add: add_item_def h j(1) pf nd al get_history_def)
qed

lemma add_item_new_eq:
  assumes hs: "list_all (hashable H) (get_history s)" and hx: "hashable H X"
    and new: "get_hash H X \<notin> get_hash H ` set (get_history s)"
  shows "add_item H X s = Inr (s\<lparr>history := appendleft X (history s)\<rparr>)"
proof -
  from hx obtain h where h: "get_hash H X = Inr h" by (auto simp: hashable_iff)
  with new have "Inr h \<notin> get_hash H ` set (items (history s))"
    by (simp add: get_history_def)
  with hs have "find_existing H h 0 (items (history s)) = Inr None"
    by (simp add: find_existing_none get_history_def)
  with h show ?thesis by (simp add: add_item_def)
qed

lemma appendleft_items:
  "items (appendleft x d) =
     (if length (items d) < maxlen d then x # items d else butlast (x # items d))"
  by (simp add: appendleft_def)

lemma appendleft_maxlen: "maxlen (appendleft x d) = maxlen d"
  by (simp add: appendleft_def)

text \<open>Both paths keep the store in such a state.\<close>

lemma store_inv_promote:
  assumes inv: "store_inv H s" and ex: "get_hash H X \<in> get_hash H ` set (get_history s)"
  shows "store_inv H
    (s\<lparr>history := \<lparr>items = X # filter (\<lambda>c. get_hash H c \<noteq> get_hash H X) (get_history s),
                    maxlen = nat (max_depth s)\<rparr>\<rparr>)"
proof -
  let ?xs = "items (history s)"
  let ?ys = "filter (\<lambda>c. get_hash H c \<noteq> get_hash H X) ?xs"
  from inv have hs: "list_all (hashable H) ?xs" and d: "distinct (map (get_hash H) ?xs)"
    and len: "length ?xs \<le> nat (max_depth s)" and nn: "0 \<le> max_depth s"
    by (simp_all add: store_inv_def)
  from ex hs have hx: "hashable H X"
    by (auto simp: get_history_def list_all_iff hashable_iff)
  have l: "Suc (length ?ys) = length ?xs"
    using filter_neq_length[OF d] ex by (simp add: get_history_def)
  have "distinct (map (get_hash H) ?ys)" using d by (simp add: distinct_map_filter)
  moreover have "get_hash H X \<notin> get_hash H ` set ?ys" by auto
  moreover have "list_all (hashable H) ?ys" using hs by (simp add: list_all_iff)
  ultimately show ?thesis
    using hx l len nn by (simp add: store_inv_def get_history_def)
qed

lemma store_inv_new:
  assumes inv: "store_inv H s" and hx: "hashable H X"
    and new: "get_hash H X \<notin> get_hash H ` set (get_history s)"
  shows "store_inv H (s\<lparr>history := appendleft X (history s)\<rparr>)"
proof -
  let ?xs = "items (history s)"
  let ?zs = "X # ?xs"
  from inv have hs: "list_all (hashable H) ?xs" and d: "distinct (map (get_hash H) ?xs)"
    and len: "length ?xs \<le> maxlen (history s)" and nn: "0 \<le> max_depth s"
    and ml: "maxlen (history s) = nat (max_depth s)"
    by (simp_all add: store_inv_def)
  have dz: "distinct (map (get_hash H) ?zs)" using d new by (simp add: get_history_def)
  have hz: "list_all (hashable H) ?zs" using hs hx by simp
  have db: "distinct (map (get_hash H) (butlast ?zs))"
    using distinct_butlast[OF dz] by (simp only: map_butlast)
  have hb: "list_all (hashable H) (butlast ?zs)"
    using hz by (auto simp: list_all_iff dest: in_set_butlastD)
  show ?thesis
  proof (cases "length ?xs < maxlen (history s)")
    case True
    then show ?thesis
      using dz hz nn ml by (simp add: store_inv_def appendleft_items appendleft_maxlen)
  next
    case False
    then show ?thesis
      using db hb nn ml len
      by (simp add: store_inv_def appendleft_items appendleft_maxlen del: butlast.simps)
  qed
qed

lemma init_store_inv:
  "HistoryManager_init k = Inr s0 \<Longrightarrow>
     store_inv H s0 \<and> max_depth s0 = k \<and> get_history s0 = [] \<and> 0 \<le> k"
  by (auto simp: HistoryManager_init_def new_deque_def store_inv_def get_history_def
           split: if_splits)

text \<open>
  The constructor gives such a state and every operation that returns keeps it, so
  these are the states of a store none of whose calls has raised.
\<close>

lemma store_inv_add_item:
  assumes inv: "store_inv H s" and run: "add_item H X s = Inr s'"
  shows "store_inv H s'"
proof (cases "get_hash H X \<in> get_hash H ` set (get_history s)")
  case True
  from add_item_promote_eq[OF inv True] run store_inv_promote[OF inv True]
  show ?thesis by simp
next
  case False
  from run have hx: "hashable H X" by (auto simp: add_item_def hashable_iff split: sum.splits)
  from inv have hs: "list_all (hashable H) (get_history s)"
    by (simp add: store_inv_def get_history_def)
  from add_item_new_eq[OF hs hx False] run store_inv_new[OF inv hx False]
  show ?thesis by simp
qed

lemma store_inv_set_max_depth:
  assumes inv: "store_inv H s" and run: "set_max_depth depth s = Inr s'"
  shows "store_inv H s'"
proof -
  let ?xs = "items (history s)"
  from run have nn: "0 \<le> depth"
    by (auto simp: set_max_depth_def new_deque_def Let_def split: if_splits)
  from inv have hs: "list_all (hashable H) ?xs" and d: "distinct (map (get_hash H) ?xs)"
    by (simp_all add: store_inv_def)
  have "s' = s\<lparr>max_depth := depth, history := \<lparr>items = take (nat depth) ?xs, maxlen = nat depth\<rparr>\<rparr>"
    using run nn
    by (auto simp: set_max_depth_def new_deque_def slice_to_def Let_def min_def
             split: if_splits)
  moreover have "distinct (map (get_hash H) (take (nat depth) ?xs))"
    using d by (simp add: distinct_take flip: take_map)
  moreover have "list_all (hashable H) (take (nat depth) ?xs)"
    using hs by (auto simp: list_all_iff dest: in_set_takeD)
  ultimately show ?thesis using nn by (simp add: store_inv_def)
qed

lemma store_inv_clear_history: "store_inv H s \<Longrightarrow> store_inv H (clear_history s)"
  by (simp add: store_inv_def clear_history_def)

text \<open>
  What \<open>add_item\<close> leaves in a store in such a state: the new entry in front of the
  old ones without the entry of the same fingerprint, cut to the capacity.
\<close>

lemma add_item_result:
  assumes inv: "store_inv H hm" and h: "get_hash H c = Inr h"
  shows "\<exists>hm'. add_item H c hm = Inr hm' \<and>
     get_history hm' =
       take (nat (max_depth hm)) (c # filter (\<lambda>x. get_hash H x \<noteq> Inr h) (get_history hm)) \<and>
     max_depth hm' = max_depth hm"
proof (cases "get_hash H c \<in> get_hash H ` set (get_history hm)")
  case True
  let ?ys = "filter (\<lambda>x. get_hash H x \<noteq> get_hash H c) (get_history hm)"
  from inv have d: "distinct (map (get_hash H) (get_history hm))"
    and len: "length (get_history hm) \<le> nat (max_depth hm)"
    by (simp_all add: store_inv_def get_history_def)
  from filter_neq_length[OF d True] len have "length (c # ?ys) \<le> nat (max_depth hm)" by simp
  then have "take (nat (max_depth hm)) (c # ?ys) = c # ?ys" by (rule take_all)
  with add_item_promote_eq[OF inv True] h show ?thesis
    by (simp add: get_history_def)
next
  case False
  let ?xs = "get_history hm"
  from inv have hs: "list_all (hashable H) ?xs" and ml: "maxlen (history hm) = nat (max_depth hm)"
    and len: "length ?xs \<le> nat (max_depth hm)"
    by (simp_all add: store_inv_def get_history_def)
  from h have hx: "hashable H c" by (simp add: hashable_iff)
  from False h have "\<forall>x\<in>set ?xs. get_hash H x \<noteq> Inr h" by (metis imageI)
  then have f: "filter (\<lambda>x. get_hash H x \<noteq> Inr h) ?xs = ?xs" by simp
  have "items (appendleft c (history hm)) = take (nat (max_depth hm)) (c # ?xs)"
  proof (cases "length ?xs < nat (max_depth hm)")
    case True
    then show ?thesis using ml by (simp add: appendleft_items get_history_def)
  next
    case False
    with len have "length ?xs = nat (max_depth hm)" by simp
    then show ?thesis using ml
      by (simp add: appendleft_items get_history_def butlast_conv_take del: butlast.simps)
  qed
  with add_item_new_eq[OF hs hx False] f show ?thesis
    by (simp add: get_history_def)
qed

lemma empty_store2_inv: "store_inv H empty_store2"
  by (simp add: store_inv_def empty_store2_def)

lemma store_img_a_inv: "store_inv length_digest store_img_a"
  by (simp add: store_inv_def store_img_a_def hashable_def get_hash_def entry_img_def
      entry_a_def utf8_char_def length_digest_def)

subsection \<open>Promotion of a duplicate\<close>

text \<open>
  Claim C1 (dedup-promotion).  Let the store be in a state that its operations
  produce (\<open>store_inv\<close>) and let
  \<open>add_item X\<close> be called while some stored entry has the fingerprint of \<open>X\<close>.  Then the
  call returns, the new object \<open>X\<close> is at index 0, all the other entries follow in their
  old order with the old entry of that fingerprint taken out, the number of entries is
  what it was, exactly one entry has the fingerprint of \<open>X\<close>, and the capacity is
  untouched: the promotion is a move and evicts nothing.
\<close>

theorem add_item_dedup_promotion:
  assumes "store_inv H s"
    and "get_hash H X \<in> get_hash H ` set (get_history s)"
  shows "\<exists>s'. add_item H X s = Inr s' \<and>
           get_history s' = X # filter (\<lambda>c. get_hash H c \<noteq> get_hash H X) (get_history s) \<and>
           get_item 0 s' = Some X \<and>
           length (get_history s') = length (get_history s) \<and>
           length (filter (\<lambda>c. get_hash H c = get_hash H X) (get_history s')) = 1 \<and>
           max_depth s' = max_depth s"
proof -
  let ?ys = "filter (\<lambda>c. get_hash H c \<noteq> get_hash H X) (get_history s)"
  let ?s' = "s\<lparr>history := \<lparr>items = X # ?ys, maxlen = nat (max_depth s)\<rparr>\<rparr>"
  from assms(1) have d: "distinct (map (get_hash H) (get_history s))"
    by (simp add: store_inv_def get_history_def)
  have run: "add_item H X s = Inr ?s'" by (rule add_item_promote_eq[OF assms])
  have hist: "get_history ?s' = X # ?ys" by (simp add: get_history_def)
  have first: "get_item 0 ?s' = Some X" by (simp add: get_item_def)
  have len: "length (get_history ?s') = length (get_history s)"
    using filter_neq_length[OF d assms(2)] by (simp add: get_history_def)
  have "filter (\<lambda>c. get_hash H c = get_hash H X) ?ys = []"
    by (simp add: filter_empty_conv)
  then have once: "length (filter (\<lambda>c. get_hash H c = get_hash H X) (get_history ?s')) = 1"
    by (simp add: get_history_def)
  have cap: "max_depth ?s' = max_depth s" by simp
  from run hist first len once cap show ?thesis by blast
qed

theorem add_item_dedup_promotion_witness:
  "store_inv length_digest store_img_a \<and>
   get_hash length_digest entry_a_rich \<in> get_hash length_digest ` set (get_history store_img_a) \<and>
   (\<exists>s'. add_item length_digest entry_a_rich store_img_a = Inr s' \<and>
      get_history s' = [entry_a_rich, entry_img] \<and>
      length (get_history s') = 2)"
proof -
  have h1: "store_inv length_digest store_img_a" by (rule store_img_a_inv)
  have h2: "get_hash length_digest entry_a_rich
      \<in> get_hash length_digest ` set (get_history store_img_a)"
    by (simp add: get_history_def store_img_a_def get_hash_def entry_a_rich_def entry_a_def
        entry_img_def)
  have f: "filter (\<lambda>c. get_hash length_digest c \<noteq> get_hash length_digest entry_a_rich)
      (get_history store_img_a) = [entry_img]"
    by (simp add: get_history_def store_img_a_def get_hash_def entry_a_rich_def entry_a_def
        entry_img_def utf8_char_def length_digest_def)
  from add_item_dedup_promotion[OF h1 h2] f h1 h2 show ?thesis by auto
qed

subsection \<open>The depth bound\<close>

text \<open>One \<open>add_item\<close> call, with \<open>A\<close> the fingerprints inserted so far.\<close>

lemma add_item_step:
  assumes inv: "store_inv H s" and hx: "hashable H X" and fin: "finite A"
    and sub: "get_hash H ` set (get_history s) \<subseteq> A"
    and len: "length (get_history s) = min (nat (max_depth s)) (card A)"
  shows "\<exists>s'. add_item H X s = Inr s' \<and> store_inv H s' \<and> max_depth s' = max_depth s \<and>
     get_hash H ` set (get_history s') \<subseteq> insert (get_hash H X) A \<and>
     length (get_history s') = min (nat (max_depth s)) (card (insert (get_hash H X) A))"
proof (cases "get_hash H X \<in> get_hash H ` set (get_history s)")
  case True
  let ?s' = "s\<lparr>history := \<lparr>items = X # filter (\<lambda>c. get_hash H c \<noteq> get_hash H X) (get_history s),
                    maxlen = nat (max_depth s)\<rparr>\<rparr>"
  from inv have d: "distinct (map (get_hash H) (get_history s))"
    by (simp add: store_inv_def get_history_def)
  have "insert (get_hash H X) A = A" using True sub by auto
  moreover have "length (get_history ?s') = length (get_history s)"
    using filter_neq_length[OF d True] by (simp add: get_history_def)
  moreover have "get_hash H ` set (get_history ?s') \<subseteq> insert (get_hash H X) A"
    using sub by (auto simp: get_history_def)
  ultimately show ?thesis
    using add_item_promote_eq[OF inv True] store_inv_promote[OF inv True] len
    by (intro exI[of _ ?s']) simp
next
  case False
  let ?s' = "s\<lparr>history := appendleft X (history s)\<rparr>"
  let ?xs = "get_history s"
  let ?k = "nat (max_depth s)"
  from inv have d: "distinct (map (get_hash H) ?xs)"
    and hs: "list_all (hashable H) ?xs" and ml: "maxlen (history s) = ?k"
    and le: "length ?xs \<le> ?k"
    by (simp_all add: store_inv_def get_history_def)
  have eq: "add_item H X s = Inr ?s'" by (rule add_item_new_eq[OF hs hx False])
  have inv': "store_inv H ?s'" by (rule store_inv_new[OF inv hx False])
  have cardhs: "card (get_hash H ` set ?xs) = length ?xs"
    using d distinct_card[of "map (get_hash H) ?xs"] by simp
  have sub': "get_hash H ` set (get_history ?s') \<subseteq> insert (get_hash H X) A"
    using sub by (auto simp: get_history_def appendleft_items dest: in_set_butlastD)
  have len': "length (get_history ?s') = min ?k (card (insert (get_hash H X) A))"
  proof (cases "length ?xs < ?k")
    case True
    with len have "card A = length ?xs" by (simp add: min_def split: if_splits)
    with cardhs sub fin have "get_hash H ` set ?xs = A"
      by (simp add: card_subset_eq)
    with False have "get_hash H X \<notin> A" by simp
    with fin have "card (insert (get_hash H X) A) = Suc (card A)" by simp
    with True \<open>card A = length ?xs\<close> ml show ?thesis
      by (simp add: get_history_def appendleft_items)
  next
    case False
    with le have "length ?xs = ?k" by simp
    with len have "?k \<le> card A" by (simp add: min_def split: if_splits)
    also have "card A \<le> card (insert (get_hash H X) A)"
      using fin by (simp add: card_insert_le)
    finally have "?k \<le> card (insert (get_hash H X) A)" .
    with \<open>length ?xs = ?k\<close> ml show ?thesis
      by (simp add: get_history_def appendleft_items del: butlast.simps)
  qed
  show ?thesis using eq inv' sub' len' by (intro exI[of _ ?s']) simp
qed

lemma add_items_length:
  assumes "store_inv H s" and "list_all (hashable H) cs" and "finite A"
    and "get_hash H ` set (get_history s) \<subseteq> A"
    and "length (get_history s) = min (nat (max_depth s)) (card A)"
  shows "\<exists>s'. add_items H cs s = Inr s' \<and> store_inv H s' \<and> max_depth s' = max_depth s \<and>
     length (get_history s') = min (nat (max_depth s)) (card (A \<union> get_hash H ` set cs))"
  using assms
proof (induction cs arbitrary: s A)
  case Nil
  then show ?case by simp
next
  case (Cons c cs)
  from Cons.prems(2) have hc: "hashable H c" and hcs: "list_all (hashable H) cs" by simp_all
  from add_item_step[OF Cons.prems(1) hc Cons.prems(3) Cons.prems(4) Cons.prems(5)]
  obtain s1 where s1: "add_item H c s = Inr s1" "store_inv H s1" "max_depth s1 = max_depth s"
    "get_hash H ` set (get_history s1) \<subseteq> insert (get_hash H c) A"
    "length (get_history s1) = min (nat (max_depth s)) (card (insert (get_hash H c) A))"
    by blast
  have fin: "finite (insert (get_hash H c) A)" using Cons.prems(3) by simp
  from Cons.IH[OF s1(2) hcs fin s1(4)] s1(3) s1(5)
  obtain s' where s': "add_items H cs s1 = Inr s'" "store_inv H s'" "max_depth s' = max_depth s1"
    "length (get_history s') =
       min (nat (max_depth s1)) (card (insert (get_hash H c) A \<union> get_hash H ` set cs))"
    by auto
  have "insert (get_hash H c) A \<union> get_hash H ` set cs = A \<union> get_hash H ` set (c # cs)"
    by auto
  with s' s1(1) s1(3) show ?case by (intro exI[of _ s']) simp
qed

text \<open>
  Claim C2 (depth bound).  Let a store be created with capacity \<open>k\<close> and let entries
  that have fingerprints be added one after the other.  Then every call returns, after
  all of them the store holds \<open>min(k, number of distinct fingerprints inserted)\<close>
  entries, and after each prefix of the calls it holds at most \<open>k\<close> entries.
\<close>

theorem depth_bound:
  assumes init: "HistoryManager_init k = Inr s0"
    and hcs: "list_all (hashable H) cs"
  shows "(\<exists>s. add_items H cs s0 = Inr s \<and>
            int (length (get_history s)) = min k (int (card (get_hash H ` set cs)))) \<and>
         (\<forall>n\<le>length cs. \<exists>s'. add_items H (take n cs) s0 = Inr s' \<and>
            int (length (get_history s')) \<le> k)"
proof -
  from init_store_inv[OF init]
  have inv: "store_inv H s0" and md: "max_depth s0 = k" and e: "get_history s0 = []"
    and nn: "0 \<le> k" by simp_all
  have run: "\<exists>s'. add_items H ds s0 = Inr s' \<and>
      length (get_history s') = min (nat k) (card (get_hash H ` set ds))"
    if "list_all (hashable H) ds" for ds
    using add_items_length[OF inv that, of "{}"] e md by auto
  have a: "\<exists>s. add_items H cs s0 = Inr s \<and>
            int (length (get_history s)) = min k (int (card (get_hash H ` set cs)))"
  proof -
    from run[OF hcs] obtain s where s: "add_items H cs s0 = Inr s"
      "length (get_history s) = min (nat k) (card (get_hash H ` set cs))" by blast
    from s(2) nn have "int (length (get_history s)) = min k (int (card (get_hash H ` set cs)))"
      by linarith
    with s(1) show ?thesis by blast
  qed
  have b: "\<exists>s'. add_items H (take n cs) s0 = Inr s' \<and> int (length (get_history s')) \<le> k"
    if "n \<le> length cs" for n
  proof -
    have "list_all (hashable H) (take n cs)"
      using hcs by (auto simp: list_all_iff dest: in_set_takeD)
    from run[OF this] obtain s' where s': "add_items H (take n cs) s0 = Inr s'"
      "length (get_history s') = min (nat k) (card (get_hash H ` set (take n cs)))" by blast
    from s'(2) nn have "int (length (get_history s')) \<le> k" by linarith
    with s'(1) show ?thesis by blast
  qed
  from a b show ?thesis by blast
qed

theorem depth_bound_witness:
  "HistoryManager_init 2 = Inr empty_store2 \<and>
   list_all (hashable length_digest) [entry_a, entry_img, entry_a_rich] \<and>
   (\<exists>s. add_items length_digest [entry_a, entry_img, entry_a_rich] empty_store2 = Inr s \<and>
      int (length (get_history s)) =
        min 2 (int (card (get_hash length_digest ` set [entry_a, entry_img, entry_a_rich]))))"
proof -
  have h1: "HistoryManager_init 2 = Inr empty_store2"
    by (simp add: HistoryManager_init_def new_deque_def empty_store2_def)
  have h2: "list_all (hashable length_digest) [entry_a, entry_img, entry_a_rich]"
    by (simp add: hashable_def get_hash_def entry_a_def entry_img_def entry_a_rich_def
        utf8_char_def)
  from depth_bound[OF h1 h2] h1 h2 show ?thesis by blast
qed

subsection \<open>Shrinking the capacity\<close>

text \<open>
  Claim C5 (immediate capacity shrink).  For a store that holds more than \<open>depth\<close>
  entries, \<open>depth\<close> being a capacity and so not negative, \<open>set_max_depth depth\<close>
  returns a store that holds exactly the first \<open>depth\<close> entries (the most recent ones)
  in their order, and whose capacity and deque bound are \<open>depth\<close>.  The result is the
  state the call itself returns; no later insert is involved.
\<close>

theorem set_max_depth_shrinks_immediately:
  assumes "0 \<le> depth" and "depth < int (length (get_history s))"
  shows "\<exists>s'. set_max_depth depth s = Inr s' \<and>
           get_history s' = take (nat depth) (get_history s) \<and>
           length (get_history s') = nat depth \<and>
           max_depth s' = depth \<and> maxlen (history s') = nat depth"
proof -
  let ?xs = "items (history s)"
  let ?s' = "s\<lparr>max_depth := depth, history := \<lparr>items = take (nat depth) ?xs, maxlen = nat depth\<rparr>\<rparr>"
  from assms have lt: "nat depth < length ?xs" by (simp add: get_history_def)
  have "new_deque (slice_to ?xs depth) depth =
      Inr \<lparr>items = take (nat depth) ?xs, maxlen = nat depth\<rparr>"
    using assms(1) lt by (simp add: new_deque_def slice_to_def min_def)
  with assms have "set_max_depth depth s = Inr ?s'"
    by (simp add: set_max_depth_def get_history_def)
  moreover have "length (get_history ?s') = nat depth"
    using lt by (simp add: get_history_def min_def)
  ultimately show ?thesis by (intro exI[of _ ?s']) (simp add: get_history_def)
qed

text \<open>
  A negative \<open>depth\<close> is no capacity: the deque constructor refuses it, after
  \<open>_max_depth\<close> was already assigned.
\<close>

lemma set_max_depth_negative:
  "depth < 0 \<Longrightarrow> set_max_depth depth s = Inl (ValueError, s\<lparr>max_depth := depth\<rparr>)"
  by (simp add: set_max_depth_def new_deque_def Let_def)

theorem set_max_depth_shrinks_immediately_witness:
  "(0::int) \<le> 1 \<and> 1 < int (length (get_history store_img_a)) \<and>
   (\<exists>s'. set_max_depth 1 store_img_a = Inr s' \<and> get_history s' = [entry_img] \<and>
      max_depth s' = 1)"
proof -
  have h1: "(0::int) \<le> 1" by simp
  have h2: "1 < int (length (get_history store_img_a))"
    by (simp add: get_history_def store_img_a_def)
  have t: "take (nat 1) (get_history store_img_a) = [entry_img]"
    by (simp add: get_history_def store_img_a_def)
  from set_max_depth_shrinks_immediately[OF h1 h2] t h1 h2 show ?thesis by auto
qed

subsection \<open>Reading by index\<close>

text \<open>
  Claim C9 (\<open>get_item\<close> is total on indices).  For every store and every integer
  index, \<open>get_item\<close> returns the entry at that position of the history when the index
  is at least 0 and below the length, and \<open>None\<close> for every other index, negative
  ones included.  The function has no error result: it raises for no index.
\<close>

theorem get_item_total:
  "get_item index s =
     (if 0 \<le> index \<and> index < int (length (get_history s))
      then Some (get_history s ! nat index)
      else None)"
  by (simp add: get_item_def get_history_def)

subsection \<open>The fingerprint ignores the content type\<close>

text \<open>
  Claim C10.  \<open>get_hash\<close> is the digest of the payload bytes (the UTF-8 encoding of
  a string, the bytes of a byte string) and reads nothing else of the entry, so two
  entries with equal payloads have equal fingerprints whatever their content types.
  The store then treats them as one entry: adding \<open>c2\<close> while \<open>c1\<close> is stored takes
  \<open>c1\<close> out and puts \<open>c2\<close> at the front, and the count stays.
\<close>

theorem get_hash_ignores_content_type:
  assumes "data c1 = data c2"
  shows "get_hash H c1 =
           (case data c1 of
              StrData s \<Rightarrow> (case encode_utf8 s of Inl e \<Rightarrow> Inl e | Inr bs \<Rightarrow> Inr (H bs))
            | BytesData bs \<Rightarrow> Inr (H bs)) \<and>
         get_hash H c1 = get_hash H c2 \<and>
         (store_inv H s \<and> c1 \<in> set (get_history s) \<longrightarrow>
            (\<exists>s'. add_item H c2 s = Inr s' \<and>
               get_history s' = c2 # remove1 c1 (get_history s) \<and>
               length (get_history s') = length (get_history s)))"
proof -
  have eq: "get_hash H c1 = get_hash H c2" using assms by (simp add: get_hash_def)
  have store: "\<exists>s'. add_item H c2 s = Inr s' \<and>
               get_history s' = c2 # remove1 c1 (get_history s) \<and>
               length (get_history s') = length (get_history s)"
    if inv: "store_inv H s" and mem: "c1 \<in> set (get_history s)"
  proof -
    from inv have d: "distinct (map (get_hash H) (get_history s))"
      by (simp add: store_inv_def get_history_def)
    from mem eq have ex: "get_hash H c2 \<in> get_hash H ` set (get_history s)"
      by (metis imageI)
    let ?s' = "s\<lparr>history := \<lparr>items = c2 # filter (\<lambda>c. get_hash H c \<noteq> get_hash H c2) (get_history s),
                    maxlen = nat (max_depth s)\<rparr>\<rparr>"
    have f: "filter (\<lambda>c. get_hash H c \<noteq> get_hash H c2) (get_history s) = remove1 c1 (get_history s)"
      using filter_neq_remove1[OF d mem] eq by simp
    have "add_item H c2 s = Inr ?s'" by (rule add_item_promote_eq[OF inv ex])
    moreover have "get_history ?s' = c2 # remove1 c1 (get_history s)"
      using f by (simp add: get_history_def)
    moreover have "length (get_history ?s') = length (get_history s)"
      using filter_neq_length[OF d ex] by (simp add: get_history_def)
    ultimately show ?thesis by blast
  qed
  show ?thesis using eq store by (simp add: get_hash_def)
qed

theorem get_hash_ignores_content_type_witness:
  "data entry_a = data entry_a_rich \<and> content_type entry_a \<noteq> content_type entry_a_rich \<and>
   get_hash length_digest entry_a = get_hash length_digest entry_a_rich \<and>
   store_inv length_digest store_img_a \<and> entry_a \<in> set (get_history store_img_a) \<and>
   (\<exists>s'. add_item length_digest entry_a_rich store_img_a = Inr s' \<and>
      get_history s' = [entry_a_rich, entry_img])"
proof -
  have h1: "data entry_a = data entry_a_rich" by (simp add: entry_a_def entry_a_rich_def)
  have h2: "content_type entry_a \<noteq> content_type entry_a_rich"
    by (simp add: entry_a_def entry_a_rich_def)
  have h3: "store_inv length_digest store_img_a" by (rule store_img_a_inv)
  have h4: "entry_a \<in> set (get_history store_img_a)"
    by (simp add: get_history_def store_img_a_def)
  have r: "remove1 entry_a (get_history store_img_a) = [entry_img]"
    by (simp add: get_history_def store_img_a_def entry_a_def entry_img_def)
  from get_hash_ignores_content_type[OF h1, of length_digest store_img_a] h1 h2 h3 h4 r
  show ?thesis by auto
qed

section \<open>Properties of the clipboard watcher\<close>

lemma extract_plain_text_shape:
  "extract_plain_text m = Some (ct, d) \<Longrightarrow>
     (ct = TEXT \<and> (\<exists>t. d = StrData t)) \<or>
     (ct = UNSUPPORTED \<and> d = StrData UNSUPPORTED_PLACEHOLDER)"
  by (auto simp: extract_plain_text_def split: sum.splits if_splits)

lemma extract_html_shape:
  "extract_html m = Some (ct, d) \<Longrightarrow>
     ((ct = TEXT \<or> ct = RICH_TEXT) \<and> (\<exists>t. d = StrData t)) \<or>
     (ct = UNSUPPORTED \<and> d = StrData UNSUPPORTED_PLACEHOLDER)"
  by (auto simp: extract_html_def split: sum.splits if_splits dest: extract_plain_text_shape)

text \<open>What \<open>_extract_content\<close> can return: the payload type goes with the content type.\<close>

lemma extract_content_shape:
  "extract_content m = Some (ct, d) \<Longrightarrow>
     (ct = IMAGE \<and> (\<exists>bs. d = BytesData bs)) \<or>
     ((ct = TEXT \<or> ct = RICH_TEXT) \<and> (\<exists>t. d = StrData t)) \<or>
     (ct = UNSUPPORTED \<and> d = StrData UNSUPPORTED_PLACEHOLDER)"
  by (auto simp: extract_content_def split: sum.splits if_splits option.splits
           dest: extract_html_shape)

lemma placeholder_size: "calculate_size (StrData UNSUPPORTED_PLACEHOLDER) = Inr 21"
  by (simp add: calculate_size_def UNSUPPORTED_PLACEHOLDER_def utf8_char_def)

text \<open>
  For what \<open>_extract_content\<close> returns, an entry that can be constructed and passed the
  size check has a payload within the ceiling.
\<close>

lemma accepted_within_ceiling:
  assumes ex: "extract_content m = Some (ct, d)"
    and sz: "\<not> estimate_content_size ct d > MAX_CONTENT_SIZE_BYTES"
    and new: "new_ClipboardContent ct d now = Inr c"
  shows "within_ceiling c"
proof -
  from new obtain n where n: "calculate_size d = Inr n" and c: "data c = d"
    by (auto simp: new_ClipboardContent_def split: sum.splits)
  from extract_content_shape[OF ex] consider
      (image) bs where "ct = IMAGE" "d = BytesData bs"
    | (str) t where "ct = TEXT \<or> ct = RICH_TEXT" "d = StrData t"
    | (unsupported) "ct = UNSUPPORTED" "d = StrData UNSUPPORTED_PLACEHOLDER"
    by blast
  then have "n \<le> MAX_CONTENT_SIZE_BYTES"
  proof cases
    case image
    with sz n show ?thesis by (simp add: estimate_content_size_def calculate_size_def)
  next
    case str
    with sz n show ?thesis
      by (auto simp: estimate_content_size_def calculate_size_def split: sum.splits)
  next
    case unsupported
    with n placeholder_size show ?thesis by (simp add: MAX_CONTENT_SIZE_BYTES_def)
  qed
  with n c show ?thesis by (simp add: within_ceiling_def)
qed

lemma new_deque_items_subset:
  "new_deque xs m = Inr d \<Longrightarrow> set (items d) \<subseteq> set xs"
  by (auto simp: new_deque_def split: if_splits dest: in_set_dropD)

lemma pop_index_subset: "set (pop_index i xs) \<subseteq> set xs"
  by (auto simp: pop_index_def dest: in_set_takeD in_set_dropD)

lemma appendleft_subset: "set (items (appendleft x d)) \<subseteq> insert x (set (items d))"
  by (auto simp: appendleft_items dest: in_set_butlastD)

text \<open>\<open>add_item\<close> brings in nothing but the entry it is given.\<close>

lemma add_item_subset:
  assumes "add_item H c hm = Inr hm'"
  shows "set (get_history hm') \<subseteq> insert c (set (get_history hm))"
proof -
  from assms obtain h where h: "get_hash H c = Inr h"
    by (auto simp: add_item_def split: sum.splits)
  show ?thesis
  proof (cases "find_existing H h 0 (items (history hm))")
    case (Inl e)
    with assms h show ?thesis by (simp add: add_item_def)
  next
    case (Inr r)
    show ?thesis
    proof (cases r)
      case None
      with assms h Inr have "hm' = hm\<lparr>history := appendleft c (history hm)\<rparr>"
        by (simp add: add_item_def)
      then show ?thesis using appendleft_subset[of c "history hm"] by (simp add: get_history_def)
    next
      case (Some i)
      with assms h Inr obtain d where
        d: "new_deque (pop_index i (items (history hm))) (max_depth hm) = Inr d"
        and hm': "hm' = hm\<lparr>history := appendleft c d\<rparr>"
        by (auto simp: add_item_def split: sum.splits)
      from new_deque_items_subset[OF d] pop_index_subset[of i "items (history hm)"]
      have "set (items d) \<subseteq> set (items (history hm))" by blast
      with appendleft_subset[of c d] hm' show ?thesis
        by (auto simp: get_history_def)
    qed
  qed
qed

subsection \<open>Oversized content\<close>

lemma on_clipboard_change_oversized:
  assumes "extract_content m = Some (ct, d)"
    and "estimate_content_size ct d > MAX_CONTENT_SIZE_BYTES"
  shows "on_clipboard_change H now (Inr (Some m)) s = s"
  using assms by (simp add: on_clipboard_change_def)

lemma on_clipboard_change_within_ceiling:
  assumes "list_all within_ceiling (get_history (history_manager s))"
  shows "list_all within_ceiling (get_history (history_manager (on_clipboard_change H now clip s)))"
proof -
  let ?s' = "on_clipboard_change H now clip s"
  have "?s' = s \<or> history_manager ?s' = history_manager s \<or>
      (\<exists>m ct d c. extract_content m = Some (ct, d) \<and>
          \<not> estimate_content_size ct d > MAX_CONTENT_SIZE_BYTES \<and>
          new_ClipboardContent ct d now = Inr c \<and>
          add_item H c (history_manager s) = Inr (history_manager ?s'))"
    by (auto simp: on_clipboard_change_def Let_def split: sum.splits option.splits prod.splits)
  then show ?thesis
  proof (elim disjE exE conjE)
    assume "?s' = s"
    with assms show ?thesis by simp
  next
    assume "history_manager ?s' = history_manager s"
    with assms show ?thesis by simp
  next
    fix m ct d c
    assume ex: "extract_content m = Some (ct, d)"
      and sz: "\<not> estimate_content_size ct d > MAX_CONTENT_SIZE_BYTES"
      and new: "new_ClipboardContent ct d now = Inr c"
      and add: "add_item H c (history_manager s) = Inr (history_manager ?s')"
    have "within_ceiling c" by (rule accepted_within_ceiling[OF ex sz new])
    with add_item_subset[OF add] assms show ?thesis
      by (auto simp: list_all_iff)
  qed
qed

lemma notifications_within_ceiling:
  "list_all within_ceiling (get_history (history_manager s)) \<Longrightarrow>
   list_all within_ceiling (get_history (history_manager (notifications H ns s)))"
proof (induction ns arbitrary: s)
  case Nil
  then show ?case by simp
next
  case (Cons n ns)
  obtain now clip where n: "n = (now, clip)" by (cases n)
  from Cons.prems have
    "list_all within_ceiling (get_history (history_manager (on_clipboard_change H now clip s)))"
    by (rule on_clipboard_change_within_ceiling)
  from Cons.IH[OF this] n show ?case by simp
qed

text \<open>
  Claim C7 (oversized rejection).  A notification whose extracted payload is estimated
  above \<open>MAX_CONTENT_SIZE_BYTES\<close> (10 MiB) leaves the watcher and the store exactly
  as they were: the check comes before the entry is constructed and before the store is
  called.  Hence, over any run of notifications, a history whose entries were within the
  ceiling has only entries within the ceiling; the history of a store that starts
  empty never shows content above it.
\<close>

theorem oversized_rejected:
  "(extract_content m = Some (ct, d) \<and> estimate_content_size ct d > MAX_CONTENT_SIZE_BYTES
      \<longrightarrow> on_clipboard_change H now (Inr (Some m)) s = s) \<and>
   (list_all within_ceiling (get_history (history_manager s0))
      \<longrightarrow> list_all within_ceiling (get_history (history_manager (notifications H ns s0))))"
  using on_clipboard_change_oversized[of m ct d H now s]
    notifications_within_ceiling[of s0 H ns]
  by blast

lemma mime_huge_image_extract:
  "extract_content mime_huge_image = Some (IMAGE, BytesData (replicate 10485761 0))"
  by (simp add: extract_content_def mime_huge_image_def)

lemma huge_image_estimate:
  "estimate_content_size IMAGE (BytesData (replicate 10485761 0)) > MAX_CONTENT_SIZE_BYTES"
  by (simp add: estimate_content_size_def MAX_CONTENT_SIZE_BYTES_def)

theorem oversized_rejected_witness:
  "extract_content mime_huge_image = Some (IMAGE, BytesData (replicate 10485761 0)) \<and>
   estimate_content_size IMAGE (BytesData (replicate 10485761 0)) > MAX_CONTENT_SIZE_BYTES \<and>
   on_clipboard_change length_digest 1 (Inr (Some mime_huge_image)) fresh_monitor = fresh_monitor \<and>
   list_all within_ceiling (get_history (history_manager fresh_monitor)) \<and>
   list_all within_ceiling (get_history (history_manager
     (notifications length_digest
        [(1, Inr (Some mime_huge_image)), (2, Inr (Some mime_text_a))] fresh_monitor)))"
proof -
  have h1: "extract_content mime_huge_image = Some (IMAGE, BytesData (replicate 10485761 0))"
    by (rule mime_huge_image_extract)
  have h2: "estimate_content_size IMAGE (BytesData (replicate 10485761 0)) > MAX_CONTENT_SIZE_BYTES"
    by (rule huge_image_estimate)
  have h3: "list_all within_ceiling (get_history (history_manager fresh_monitor))"
    by (simp add: fresh_monitor_def ClipboardMonitor_init_def empty_store2_def get_history_def)
  from oversized_rejected[of mime_huge_image IMAGE "BytesData (replicate 10485761 0)"
      length_digest 1 fresh_monitor fresh_monitor
      "[(1, Inr (Some mime_huge_image)), (2, Inr (Some mime_text_a))]"] h1 h2 h3
  show ?thesis by blast
qed

subsection \<open>Adjacent duplicates\<close>

text \<open>
  A notification whose entry has the fingerprint the watcher saw last changes nothing.
\<close>

lemma on_clipboard_change_same_hash:
  assumes "extract_content m = Some (ct, d)"
    and "new_ClipboardContent ct d now = Inr c"
    and "get_hash H c = Inr h"
    and "last_hash s = Some h"
  shows "on_clipboard_change H now (Inr (Some m)) s = s"
  using assms by (simp add: on_clipboard_change_def)

text \<open>
  A notification that passes the size check and has a fingerprint leaves that
  fingerprint in \<open>_last_hash\<close>, whether its entry went to the store or was itself
  recognised as a repetition.
\<close>

lemma on_clipboard_change_last_hash:
  assumes "extract_content m = Some (ct, d)"
    and "\<not> estimate_content_size ct d > MAX_CONTENT_SIZE_BYTES"
    and "new_ClipboardContent ct d now = Inr c"
    and "get_hash H c = Inr h"
  shows "last_hash (on_clipboard_change H now (Inr (Some m)) s) = Some h"
  using assms by (auto simp: on_clipboard_change_def Let_def split: sum.splits)

lemma new_ClipboardContent_hash:
  "new_ClipboardContent ct d t1 = Inr c1 \<Longrightarrow>
   \<exists>c2. new_ClipboardContent ct d t2 = Inr c2 \<and> get_hash H c2 = get_hash H c1"
  by (auto simp: new_ClipboardContent_def get_hash_def split: sum.splits)

lemma on_clipboard_change_idem:
  "on_clipboard_change H t2 clip (on_clipboard_change H t1 clip s) =
   on_clipboard_change H t1 clip s"
proof (cases clip)
  case (Inl e)
  then show ?thesis by (simp add: on_clipboard_change_def)
next
  case (Inr r)
  show ?thesis
  proof (cases r)
    case None
    with Inr show ?thesis by (simp add: on_clipboard_change_def)
  next
    case (Some m)
    note clip = Inr Some
    show ?thesis
    proof (cases "extract_content m")
      case None
      with clip show ?thesis by (simp add: on_clipboard_change_def)
    next
      case (Some p)
      obtain ct d where p: "p = (ct, d)" by (cases p)
      note ex = Some[unfolded p]
      show ?thesis
      proof (cases "estimate_content_size ct d > MAX_CONTENT_SIZE_BYTES")
        case True
        with clip ex show ?thesis by (simp add: on_clipboard_change_def)
      next
        case False
        show ?thesis
        proof (cases "new_ClipboardContent ct d t1")
          case (Inl e)
          then have "new_ClipboardContent ct d t2 = Inl e"
            by (auto simp: new_ClipboardContent_def split: sum.splits)
          with Inl clip ex show ?thesis by (simp add: on_clipboard_change_def)
        next
          case (Inr c1)
          from new_ClipboardContent_hash[OF Inr, of t2 H]
          obtain c2 where c2: "new_ClipboardContent ct d t2 = Inr c2"
            "get_hash H c2 = get_hash H c1" by blast
          show ?thesis
          proof (cases "get_hash H c1")
            case (Inl e)
            with Inr c2 clip ex show ?thesis by (simp add: on_clipboard_change_def)
          next
            case h: (Inr h)
            have "last_hash (on_clipboard_change H t1 (Inr (Some m)) s) = Some h"
              by (rule on_clipboard_change_last_hash[OF ex False Inr h])
            from on_clipboard_change_same_hash[OF ex c2(1) _ this] c2(2) h clip
            show ?thesis by simp
          qed
        qed
      qed
    qed
  qed
qed

text \<open>The calls made on the way, in the three cases past the size check.\<close>

lemma calls_oversized:
  assumes "extract_content m = Some (ct, d)"
    and "estimate_content_size ct d > MAX_CONTENT_SIZE_BYTES"
  shows "on_clipboard_change_calls H now (Inr (Some m)) s = []"
  using assms by (simp add: on_clipboard_change_calls_def)

lemma calls_same_hash:
  assumes "extract_content m = Some (ct, d)"
    and "\<not> estimate_content_size ct d > MAX_CONTENT_SIZE_BYTES"
    and "new_ClipboardContent ct d now = Inr c"
    and "get_hash H c = Inr h"
    and "last_hash s = Some h"
  shows "on_clipboard_change_calls H now (Inr (Some m)) s = [ConstructContent c]"
  using assms by (simp add: on_clipboard_change_calls_def)

lemma calls_new_hash:
  assumes "extract_content m = Some (ct, d)"
    and "\<not> estimate_content_size ct d > MAX_CONTENT_SIZE_BYTES"
    and "new_ClipboardContent ct d now = Inr c"
    and "get_hash H c = Inr h"
    and "last_hash s \<noteq> Some h"
  shows "on_clipboard_change_calls H now (Inr (Some m)) s = [ConstructContent c, CallAddItem c]"
  using assms by (auto simp: on_clipboard_change_calls_def)

lemma on_clipboard_change_accepted:
  assumes "extract_content m = Some (ct, d)"
    and "\<not> estimate_content_size ct d > MAX_CONTENT_SIZE_BYTES"
    and "new_ClipboardContent ct d now = Inr c"
    and "get_hash H c = Inr h"
    and "last_hash s \<noteq> Some h"
    and "add_item H c (history_manager s) = Inr hm"
  shows "on_clipboard_change H now (Inr (Some m)) s =
     s\<lparr>last_hash := Some h, history_manager := hm\<rparr>"
  using assms by (auto simp: on_clipboard_change_def)

text \<open>The entries the watcher makes of the text \<open>a\<close> and of the HTML \<open>a\<close>.\<close>

lemma text_a_accepted:
  "on_clipboard_change length_digest 1 (Inr (Some mime_text_a)) fresh_monitor =
     \<lparr>last_hash = Some ''0'',
      history_manager = \<lparr>max_depth = 2,
        history = \<lparr>items = [\<lparr>content_type = TEXT, data = StrData [97], timestamp = 1,
                              size_bytes = 1\<rparr>], maxlen = 2\<rparr>\<rparr>\<rparr>"
  by (simp add: on_clipboard_change_def mime_text_a_def fresh_monitor_def
      ClipboardMonitor_init_def empty_store2_def extract_content_def extract_html_def
      extract_plain_text_def estimate_content_size_def utf8_char_def
      MAX_CONTENT_SIZE_BYTES_def new_ClipboardContent_def calculate_size_def get_hash_def
      length_digest_def add_item_def appendleft_def)

text \<open>
  Claim C6 as stated does not hold.  On the second of two notifications with the text
  \<open>a\<close> the watcher does construct an entry: the \<open>ClipboardContent\<close> object is built
  (line 138) before its hash is compared with \<open>_last_hash\<close> (line 146).  And the same
  raw content fed twice is not always accepted once: an image above the size ceiling,
  fed twice, is accepted not at all.
\<close>

theorem second_notification_constructs_counterexample:
  "on_clipboard_change_calls length_digest 3 (Inr (Some mime_text_a))
     (on_clipboard_change length_digest 1 (Inr (Some mime_text_a)) fresh_monitor) =
     [ConstructContent \<lparr>content_type = TEXT, data = StrData [97], timestamp = 3,
                        size_bytes = 1\<rparr>] \<and>
   get_history (history_manager
     (on_clipboard_change length_digest 3 (Inr (Some mime_huge_image))
       (on_clipboard_change length_digest 1 (Inr (Some mime_huge_image)) fresh_monitor))) = []"
proof -
  have t: "on_clipboard_change_calls length_digest 3 (Inr (Some mime_text_a))
     (on_clipboard_change length_digest 1 (Inr (Some mime_text_a)) fresh_monitor) =
     [ConstructContent \<lparr>content_type = TEXT, data = StrData [97], timestamp = 3,
                        size_bytes = 1\<rparr>]"
    by (subst text_a_accepted)
       (simp add: on_clipboard_change_calls_def mime_text_a_def extract_content_def
          extract_html_def extract_plain_text_def estimate_content_size_def utf8_char_def
          MAX_CONTENT_SIZE_BYTES_def new_ClipboardContent_def calculate_size_def get_hash_def
          length_digest_def)
  have h: "on_clipboard_change length_digest now (Inr (Some mime_huge_image)) s = s" for now s
    by (rule on_clipboard_change_oversized[OF mime_huge_image_extract huge_image_estimate])
  have "get_history (history_manager fresh_monitor) = []"
    by (simp add: fresh_monitor_def ClipboardMonitor_init_def empty_store2_def get_history_def)
  with t h show ?thesis by simp
qed

text \<open>
  Claim C6, amended.  First part: let two notifications follow each other, the first
  within the size ceiling, and let the entries made from them have the same fingerprint
  \<open>h\<close>.  Then after the first the watcher's last fingerprint is \<open>h\<close>; the second
  leaves the watcher and the store as they are, and the only call it makes is the
  construction of its \<open>ClipboardContent\<close> object, which is thrown away (no call at
  all when it is above the ceiling): the store is not called.  Second part: let a
  notification be within the ceiling, with an entry \<open>c1\<close> of a fingerprint \<open>h\<close> other
  than the watcher's last one, over a store in a state its operations produce.  Then
  the notification constructs \<open>c1\<close> and calls \<open>add_item c1\<close>, which returns; the
  store then holds \<open>c1\<close> in front of the old entries without that fingerprint, cut to
  the capacity; and the same raw content notified again constructs an entry, does not
  call the store and changes nothing.  So of the two notifications exactly one is
  accepted.  Third part: for every clipboard reading and state, handling the reading
  twice in a row gives the state that handling it once gives.
\<close>

theorem adjacent_duplicate_suppressed:
  "(extract_content m1 = Some (ct1, d1) \<and>
    \<not> estimate_content_size ct1 d1 > MAX_CONTENT_SIZE_BYTES \<and>
    new_ClipboardContent ct1 d1 t1 = Inr c1 \<and> get_hash H c1 = Inr h \<and>
    extract_content m2 = Some (ct2, d2) \<and>
    new_ClipboardContent ct2 d2 t2 = Inr c2 \<and> get_hash H c2 = Inr h
    \<longrightarrow> last_hash (on_clipboard_change H t1 (Inr (Some m1)) s) = Some h \<and>
        on_clipboard_change H t2 (Inr (Some m2)) (on_clipboard_change H t1 (Inr (Some m1)) s) =
        on_clipboard_change H t1 (Inr (Some m1)) s \<and>
        on_clipboard_change_calls H t2 (Inr (Some m2))
          (on_clipboard_change H t1 (Inr (Some m1)) s) =
        (if estimate_content_size ct2 d2 > MAX_CONTENT_SIZE_BYTES then []
         else [ConstructContent c2])) \<and>
   (extract_content m1 = Some (ct1, d1) \<and>
    \<not> estimate_content_size ct1 d1 > MAX_CONTENT_SIZE_BYTES \<and>
    new_ClipboardContent ct1 d1 t1 = Inr c1 \<and> get_hash H c1 = Inr h \<and>
    last_hash s \<noteq> Some h \<and> store_inv H (history_manager s)
    \<longrightarrow> (\<exists>hm c1'.
          add_item H c1 (history_manager s) = Inr hm \<and>
          get_history hm =
            take (nat (max_depth (history_manager s)))
              (c1 # filter (\<lambda>x. get_hash H x \<noteq> Inr h) (get_history (history_manager s))) \<and>
          on_clipboard_change_calls H t1 (Inr (Some m1)) s =
            [ConstructContent c1, CallAddItem c1] \<and>
          on_clipboard_change H t1 (Inr (Some m1)) s =
            s\<lparr>last_hash := Some h, history_manager := hm\<rparr> \<and>
          new_ClipboardContent ct1 d1 t2 = Inr c1' \<and>
          on_clipboard_change_calls H t2 (Inr (Some m1))
            (on_clipboard_change H t1 (Inr (Some m1)) s) = [ConstructContent c1'] \<and>
          on_clipboard_change H t2 (Inr (Some m1)) (on_clipboard_change H t1 (Inr (Some m1)) s) =
            s\<lparr>last_hash := Some h, history_manager := hm\<rparr>)) \<and>
   on_clipboard_change H t2 clip (on_clipboard_change H t1 clip s') =
   on_clipboard_change H t1 clip s'"
proof (intro conjI impI)
  assume a: "extract_content m1 = Some (ct1, d1) \<and>
    \<not> estimate_content_size ct1 d1 > MAX_CONTENT_SIZE_BYTES \<and>
    new_ClipboardContent ct1 d1 t1 = Inr c1 \<and> get_hash H c1 = Inr h \<and>
    extract_content m2 = Some (ct2, d2) \<and>
    new_ClipboardContent ct2 d2 t2 = Inr c2 \<and> get_hash H c2 = Inr h"
  then show l: "last_hash (on_clipboard_change H t1 (Inr (Some m1)) s) = Some h"
    by (intro on_clipboard_change_last_hash[of m1 ct1 d1 t1 c1]) simp_all
  from a show "on_clipboard_change H t2 (Inr (Some m2))
      (on_clipboard_change H t1 (Inr (Some m1)) s) =
      on_clipboard_change H t1 (Inr (Some m1)) s"
    by (intro on_clipboard_change_same_hash[of m2 ct2 d2 t2 c2 H h] l) simp_all
  show "on_clipboard_change_calls H t2 (Inr (Some m2))
          (on_clipboard_change H t1 (Inr (Some m1)) s) =
        (if estimate_content_size ct2 d2 > MAX_CONTENT_SIZE_BYTES then []
         else [ConstructContent c2])"
  proof (cases "estimate_content_size ct2 d2 > MAX_CONTENT_SIZE_BYTES")
    case True
    with a show ?thesis by (simp add: calls_oversized)
  next
    case False
    with a l show ?thesis by (simp add: calls_same_hash[of m2 ct2 d2 t2 c2 H h])
  qed
next
  assume a: "extract_content m1 = Some (ct1, d1) \<and>
    \<not> estimate_content_size ct1 d1 > MAX_CONTENT_SIZE_BYTES \<and>
    new_ClipboardContent ct1 d1 t1 = Inr c1 \<and> get_hash H c1 = Inr h \<and>
    last_hash s \<noteq> Some h \<and> store_inv H (history_manager s)"
  then have ex: "extract_content m1 = Some (ct1, d1)"
    and sz: "\<not> estimate_content_size ct1 d1 > MAX_CONTENT_SIZE_BYTES"
    and new: "new_ClipboardContent ct1 d1 t1 = Inr c1" and h: "get_hash H c1 = Inr h"
    and fresh: "last_hash s \<noteq> Some h" and inv: "store_inv H (history_manager s)"
    by simp_all
  from add_item_result[OF inv h] obtain hm where
    add: "add_item H c1 (history_manager s) = Inr hm"
    and hist: "get_history hm =
      take (nat (max_depth (history_manager s)))
        (c1 # filter (\<lambda>x. get_hash H x \<noteq> Inr h) (get_history (history_manager s)))"
    by blast
  let ?s1 = "s\<lparr>last_hash := Some h, history_manager := hm\<rparr>"
  have first: "on_clipboard_change H t1 (Inr (Some m1)) s = ?s1"
    by (rule on_clipboard_change_accepted[OF ex sz new h fresh add])
  have calls1: "on_clipboard_change_calls H t1 (Inr (Some m1)) s =
      [ConstructContent c1, CallAddItem c1]"
    by (rule calls_new_hash[OF ex sz new h fresh])
  from new_ClipboardContent_hash[OF new, of t2 H] h
  obtain c1' where c1': "new_ClipboardContent ct1 d1 t2 = Inr c1'" "get_hash H c1' = Inr h"
    by auto
  have l: "last_hash ?s1 = Some h" by simp
  have calls2: "on_clipboard_change_calls H t2 (Inr (Some m1)) ?s1 = [ConstructContent c1']"
    by (rule calls_same_hash[OF ex sz c1' l])
  have second: "on_clipboard_change H t2 (Inr (Some m1)) ?s1 = ?s1"
    by (rule on_clipboard_change_same_hash[OF ex c1' l])
  from add hist calls1 first c1'(1) calls2 second
  show "\<exists>hm c1'.
          add_item H c1 (history_manager s) = Inr hm \<and>
          get_history hm =
            take (nat (max_depth (history_manager s)))
              (c1 # filter (\<lambda>x. get_hash H x \<noteq> Inr h) (get_history (history_manager s))) \<and>
          on_clipboard_change_calls H t1 (Inr (Some m1)) s =
            [ConstructContent c1, CallAddItem c1] \<and>
          on_clipboard_change H t1 (Inr (Some m1)) s =
            s\<lparr>last_hash := Some h, history_manager := hm\<rparr> \<and>
          new_ClipboardContent ct1 d1 t2 = Inr c1' \<and>
          on_clipboard_change_calls H t2 (Inr (Some m1))
            (on_clipboard_change H t1 (Inr (Some m1)) s) = [ConstructContent c1'] \<and>
          on_clipboard_change H t2 (Inr (Some m1)) (on_clipboard_change H t1 (Inr (Some m1)) s) =
            s\<lparr>last_hash := Some h, history_manager := hm\<rparr>"
    by (intro exI[of _ hm] exI[of _ c1']) simp
next
  show "on_clipboard_change H t2 clip (on_clipboard_change H t1 clip s') =
      on_clipboard_change H t1 clip s'"
    by (rule on_clipboard_change_idem)
qed

theorem adjacent_duplicate_suppressed_witness:
  "extract_content mime_text_a = Some (TEXT, StrData [97]) \<and>
   \<not> estimate_content_size TEXT (StrData [97]) > MAX_CONTENT_SIZE_BYTES \<and>
   new_ClipboardContent TEXT (StrData [97]) 1 = Inr entry_a \<and>
   get_hash length_digest entry_a = Inr ''0'' \<and>
   extract_content mime_html_a = Some (RICH_TEXT, StrData [97]) \<and>
   new_ClipboardContent RICH_TEXT (StrData [97]) 3 = Inr entry_a_rich \<and>
   get_hash length_digest entry_a_rich = Inr ''0'' \<and>
   last_hash fresh_monitor \<noteq> Some ''0'' \<and>
   store_inv length_digest (history_manager fresh_monitor) \<and>
   on_clipboard_change length_digest 3 (Inr (Some mime_html_a))
     (on_clipboard_change length_digest 1 (Inr (Some mime_text_a)) fresh_monitor) =
   on_clipboard_change length_digest 1 (Inr (Some mime_text_a)) fresh_monitor \<and>
   on_clipboard_change_calls length_digest 3 (Inr (Some mime_html_a))
     (on_clipboard_change length_digest 1 (Inr (Some mime_text_a)) fresh_monitor) =
   [ConstructContent entry_a_rich] \<and>
   on_clipboard_change_calls length_digest 1 (Inr (Some mime_text_a)) fresh_monitor =
   [ConstructContent entry_a, CallAddItem entry_a] \<and>
   (\<exists>hm. add_item length_digest entry_a (history_manager fresh_monitor) = Inr hm \<and>
      get_history hm = [entry_a] \<and>
      on_clipboard_change length_digest 3 (Inr (Some mime_text_a))
        (on_clipboard_change length_digest 1 (Inr (Some mime_text_a)) fresh_monitor) =
      fresh_monitor\<lparr>last_hash := Some ''0'', history_manager := hm\<rparr>)"
proof -
  have h1: "extract_content mime_text_a = Some (TEXT, StrData [97])"
    by (simp add: extract_content_def extract_html_def extract_plain_text_def mime_text_a_def)
  have h2: "\<not> estimate_content_size TEXT (StrData [97]) > MAX_CONTENT_SIZE_BYTES"
    by (simp add: estimate_content_size_def utf8_char_def MAX_CONTENT_SIZE_BYTES_def)
  have h3: "new_ClipboardContent TEXT (StrData [97]) 1 = Inr entry_a"
    by (simp add: new_ClipboardContent_def calculate_size_def utf8_char_def entry_a_def)
  have h4: "get_hash length_digest entry_a = Inr ''0''"
    by (simp add: get_hash_def entry_a_def utf8_char_def length_digest_def)
  have h5: "extract_content mime_html_a = Some (RICH_TEXT, StrData [97])"
    by (simp add: extract_content_def extract_html_def mime_html_a_def)
  have h6: "new_ClipboardContent RICH_TEXT (StrData [97]) 3 = Inr entry_a_rich"
    by (simp add: new_ClipboardContent_def calculate_size_def utf8_char_def entry_a_rich_def)
  have h7: "get_hash length_digest entry_a_rich = Inr ''0''"
    by (simp add: get_hash_def entry_a_rich_def utf8_char_def length_digest_def)
  have h8: "last_hash fresh_monitor \<noteq> Some ''0''"
    by (simp add: fresh_monitor_def ClipboardMonitor_init_def)
  have h9: "store_inv length_digest (history_manager fresh_monitor)"
    by (simp add: fresh_monitor_def ClipboardMonitor_init_def empty_store2_inv)
  have e: "take (nat (max_depth (history_manager fresh_monitor)))
      (entry_a # filter (\<lambda>x. get_hash length_digest x \<noteq> Inr ''0'')
         (get_history (history_manager fresh_monitor))) = [entry_a]"
    by (simp add: fresh_monitor_def ClipboardMonitor_init_def empty_store2_def get_history_def)
  note inst = adjacent_duplicate_suppressed[where ?m1.0 = mime_text_a and ?ct1.0 = TEXT
      and ?d1.0 = "StrData [97]" and ?t1.0 = 1 and ?c1.0 = entry_a and H = length_digest
      and h = "''0''" and ?m2.0 = mime_html_a and ?ct2.0 = RICH_TEXT
      and ?d2.0 = "StrData [97]" and ?t2.0 = 3 and ?c2.0 = entry_a_rich
      and s = fresh_monitor and clip = "Inr (Some mime_text_a)" and s' = fresh_monitor]
  have p1: "on_clipboard_change length_digest 3 (Inr (Some mime_html_a))
       (on_clipboard_change length_digest 1 (Inr (Some mime_text_a)) fresh_monitor) =
     on_clipboard_change length_digest 1 (Inr (Some mime_text_a)) fresh_monitor \<and>
     on_clipboard_change_calls length_digest 3 (Inr (Some mime_html_a))
       (on_clipboard_change length_digest 1 (Inr (Some mime_text_a)) fresh_monitor) =
     [ConstructContent entry_a_rich]"
    using inst h1 h2 h3 h4 h5 h6 h7
    by (simp add: estimate_content_size_def utf8_char_def MAX_CONTENT_SIZE_BYTES_def)
  from inst h1 h2 h3 h4 h8 h9 obtain hm c1' where p2:
    "add_item length_digest entry_a (history_manager fresh_monitor) = Inr hm"
    "get_history hm = take (nat (max_depth (history_manager fresh_monitor)))
      (entry_a # filter (\<lambda>x. get_hash length_digest x \<noteq> Inr ''0'')
         (get_history (history_manager fresh_monitor)))"
    "on_clipboard_change_calls length_digest 1 (Inr (Some mime_text_a)) fresh_monitor =
       [ConstructContent entry_a, CallAddItem entry_a]"
    "on_clipboard_change length_digest 3 (Inr (Some mime_text_a))
        (on_clipboard_change length_digest 1 (Inr (Some mime_text_a)) fresh_monitor) =
      fresh_monitor\<lparr>last_hash := Some ''0'', history_manager := hm\<rparr>"
    by blast
  from p1 p2 e h1 h2 h3 h4 h5 h6 h7 h8 h9 show ?thesis by auto
qed

subsection \<open>A failing image branch\<close>

lemma extract_content_image_raises:
  assumes "hasImage m = Inr True"
    and "imageData m = Inl e \<or> (imageData m = Inr (Some img) \<and> save_png img = Inl e)"
  shows "extract_content m = None"
  using assms by (auto simp: extract_content_def)

lemma on_clipboard_change_no_content:
  "extract_content m = None \<Longrightarrow> on_clipboard_change H now (Inr (Some m)) s = s"
  by (simp add: on_clipboard_change_def)

lemma extract_content_no_image:
  assumes "hasImage m = Inr False \<or> (hasImage m = Inr True \<and> imageData m = Inr None)"
  shows "extract_content m = extract_html m"
  using assms by (auto simp: extract_content_def)

lemma extract_html_no_html:
  assumes "hasHtml m = Inr False \<or> (hasHtml m = Inr True \<and> html m = Inr [])"
  shows "extract_html m = extract_plain_text m"
  using assms by (auto simp: extract_html_def)

lemma extract_content_has_image_raises:
  "hasImage m = Inl e \<Longrightarrow> extract_content m = None"
  by (simp add: extract_content_def)

lemma extract_content_image_converts:
  assumes "hasImage m = Inr True" and "imageData m = Inr (Some img)" and "save_png img = Inr bs"
  shows "extract_content m = Some (IMAGE, BytesData bs)"
  using assms by (simp add: extract_content_def)

text \<open>
  Unless the image branch finds no image, what the clipboard offers as HTML or plain
  text is not looked at; and unless the rich-text branch finds no HTML, what it offers
  as plain text is not looked at.
\<close>

lemma extract_content_ignores_text:
  assumes "\<not> (hasImage m = Inr False \<or> (hasImage m = Inr True \<and> imageData m = Inr None))"
  shows "extract_content (m\<lparr>hasHtml := a, html := b, hasText := c, plain_text := d\<rparr>) =
     extract_content m"
  using assms by (auto simp: extract_content_def split: sum.splits option.splits)

lemma extract_html_ignores_text:
  assumes "\<not> (hasHtml m = Inr False \<or> (hasHtml m = Inr True \<and> html m = Inr []))"
  shows "extract_html (m\<lparr>hasText := c, plain_text := d\<rparr>) = extract_html m"
  using assms by (auto simp: extract_html_def split: sum.splits)

lemma extract_html_raises:
  assumes "hasHtml m = Inl e \<or> (hasHtml m = Inr True \<and> html m = Inl e)"
  shows "extract_html m = None"
  using assms by (auto simp: extract_html_def)

lemma extract_html_found:
  assumes "hasHtml m = Inr True" and "html m = Inr h" and "h \<noteq> []"
  shows "extract_html m = Some (RICH_TEXT, StrData h)"
  using assms by (simp add: extract_html_def)

lemma extract_plain_text_raises:
  assumes "hasText m = Inl e \<or> (hasText m = Inr True \<and> plain_text m = Inl e)"
  shows "extract_plain_text m = None"
  using assms by (auto simp: extract_plain_text_def)

lemma extract_plain_text_found:
  assumes "hasText m = Inr True" and "plain_text m = Inr t" and "t \<noteq> []"
  shows "extract_plain_text m = Some (TEXT, StrData t)"
  using assms by (simp add: extract_plain_text_def)

lemma extract_plain_text_none:
  assumes "hasText m = Inr False \<or> (hasText m = Inr True \<and> plain_text m = Inr [])"
  shows "extract_plain_text m = Some (UNSUPPORTED, StrData UNSUPPORTED_PLACEHOLDER)"
  using assms by (auto simp: extract_plain_text_def)

lemma calls_no_content:
  "extract_content m = None \<Longrightarrow> on_clipboard_change_calls H now (Inr (Some m)) s = []"
  by (simp add: on_clipboard_change_calls_def)

text \<open>
  Claim C4 as stated does not hold: with an image whose conversion raises, HTML and
  plain text on the clipboard, the rich-text check (which would find the HTML) is never
  made; \<open>_extract_content\<close> returns \<open>(None, None)\<close> and the notification adds nothing.
\<close>

theorem image_failure_fall_through_counterexample:
  "hasImage mime_bad_image = Inr True \<and>
   imageData mime_bad_image = Inr (Some (QImage (Inl ExternalError))) \<and>
   extract_html mime_bad_image = Some (RICH_TEXT, StrData [60, 98, 62, 97]) \<and>
   extract_content mime_bad_image = None \<and>
   extract_content mime_bad_image \<noteq> extract_html mime_bad_image \<and>
   on_clipboard_change length_digest 1 (Inr (Some mime_bad_image)) fresh_monitor = fresh_monitor"
  by (simp add: mime_bad_image_def extract_content_def extract_html_def on_clipboard_change_def)

text \<open>
  Claim C4, amended.  When a call of the image branch raises (\<open>hasImage()\<close>,
  \<open>imageData()\<close> or the PNG conversion), the exception is caught inside
  \<open>_extract_content\<close>, which returns \<open>(None, None)\<close> without making the rich-text
  or the plain-text check; \<open>_on_clipboard_change\<close> then returns normally, constructs
  no entry, does not call the store and leaves the watcher and the store as they were.
  A call that raises in the rich-text branch (\<open>hasHtml()\<close>, \<open>html()\<close>) or in the
  plain-text branch (\<open>hasText()\<close>, \<open>text()\<close>) likewise ends that branch with
  \<open>(None, None)\<close>.  An image that converts is returned as \<open>IMAGE\<close> whatever else the
  clipboard offers.  The rich-text check is made exactly when the image branch finds no
  image (\<open>hasImage()\<close> false or \<open>imageData()\<close> \<open>None\<close>): then the result is that of
  the rich-text check, and otherwise it does not depend on what the clipboard offers as
  HTML or text.  The plain-text check is made exactly when the rich-text check finds no
  HTML (\<open>hasHtml()\<close> false or \<open>html()\<close> empty): non-empty HTML is returned as
  \<open>RICH_TEXT\<close>, and otherwise the result of the rich-text check does not depend on what
  the clipboard offers as text.  Non-empty text is returned as \<open>TEXT\<close>, and no text as
  \<open>UNSUPPORTED\<close> with the placeholder.
\<close>

theorem image_failure_drops_notification:
  "(hasImage m = Inl e \<or>
    (hasImage m = Inr True \<and>
     (imageData m = Inl e \<or> (imageData m = Inr (Some img) \<and> save_png img = Inl e)))
    \<longrightarrow> extract_content m = None \<and>
        on_clipboard_change H now (Inr (Some m)) s = s \<and>
        on_clipboard_change_calls H now (Inr (Some m)) s = []) \<and>
   (hasImage m = Inr True \<and> imageData m = Inr (Some img) \<and> save_png img = Inr bs
    \<longrightarrow> extract_content m = Some (IMAGE, BytesData bs)) \<and>
   (hasImage m = Inr False \<or> (hasImage m = Inr True \<and> imageData m = Inr None)
    \<longrightarrow> extract_content m = extract_html m) \<and>
   (\<not> (hasImage m = Inr False \<or> (hasImage m = Inr True \<and> imageData m = Inr None))
    \<longrightarrow> extract_content (m\<lparr>hasHtml := a, html := b, hasText := c, plain_text := d\<rparr>) =
        extract_content m) \<and>
   (hasHtml m = Inl e \<or> (hasHtml m = Inr True \<and> html m = Inl e)
    \<longrightarrow> extract_html m = None) \<and>
   (hasHtml m = Inr True \<and> html m = Inr h \<and> h \<noteq> []
    \<longrightarrow> extract_html m = Some (RICH_TEXT, StrData h)) \<and>
   (hasHtml m = Inr False \<or> (hasHtml m = Inr True \<and> html m = Inr [])
    \<longrightarrow> extract_html m = extract_plain_text m) \<and>
   (\<not> (hasHtml m = Inr False \<or> (hasHtml m = Inr True \<and> html m = Inr []))
    \<longrightarrow> extract_html (m\<lparr>hasText := c, plain_text := d\<rparr>) = extract_html m) \<and>
   (hasText m = Inl e \<or> (hasText m = Inr True \<and> plain_text m = Inl e)
    \<longrightarrow> extract_plain_text m = None) \<and>
   (hasText m = Inr True \<and> plain_text m = Inr t \<and> t \<noteq> []
    \<longrightarrow> extract_plain_text m = Some (TEXT, StrData t)) \<and>
   (hasText m = Inr False \<or> (hasText m = Inr True \<and> plain_text m = Inr [])
    \<longrightarrow> extract_plain_text m = Some (UNSUPPORTED, StrData UNSUPPORTED_PLACEHOLDER))"
proof (intro conjI impI)
  assume a: "hasImage m = Inl e \<or>
    (hasImage m = Inr True \<and>
     (imageData m = Inl e \<or> (imageData m = Inr (Some img) \<and> save_png img = Inl e)))"
  then show none: "extract_content m = None"
    using extract_content_has_image_raises[of m e] extract_content_image_raises[of m e img]
    by blast
  then show "on_clipboard_change H now (Inr (Some m)) s = s"
    by (rule on_clipboard_change_no_content)
  from none show "on_clipboard_change_calls H now (Inr (Some m)) s = []"
    by (rule calls_no_content)
next
  assume "hasImage m = Inr True \<and> imageData m = Inr (Some img) \<and> save_png img = Inr bs"
  then show "extract_content m = Some (IMAGE, BytesData bs)"
    by (intro extract_content_image_converts[of m img]) simp_all
next
  assume "hasImage m = Inr False \<or> (hasImage m = Inr True \<and> imageData m = Inr None)"
  then show "extract_content m = extract_html m" by (rule extract_content_no_image)
next
  assume "\<not> (hasImage m = Inr False \<or> (hasImage m = Inr True \<and> imageData m = Inr None))"
  then show "extract_content (m\<lparr>hasHtml := a, html := b, hasText := c, plain_text := d\<rparr>) =
        extract_content m"
    by (rule extract_content_ignores_text)
next
  assume "hasHtml m = Inl e \<or> (hasHtml m = Inr True \<and> html m = Inl e)"
  then show "extract_html m = None" by (rule extract_html_raises)
next
  assume "hasHtml m = Inr True \<and> html m = Inr h \<and> h \<noteq> []"
  then show "extract_html m = Some (RICH_TEXT, StrData h)"
    by (intro extract_html_found) simp_all
next
  assume "hasHtml m = Inr False \<or> (hasHtml m = Inr True \<and> html m = Inr [])"
  then show "extract_html m = extract_plain_text m" by (rule extract_html_no_html)
next
  assume "\<not> (hasHtml m = Inr False \<or> (hasHtml m = Inr True \<and> html m = Inr []))"
  then show "extract_html (m\<lparr>hasText := c, plain_text := d\<rparr>) = extract_html m"
    by (rule extract_html_ignores_text)
next
  assume "hasText m = Inl e \<or> (hasText m = Inr True \<and> plain_text m = Inl e)"
  then show "extract_plain_text m = None" by (rule extract_plain_text_raises)
next
  assume "hasText m = Inr True \<and> plain_text m = Inr t \<and> t \<noteq> []"
  then show "extract_plain_text m = Some (TEXT, StrData t)"
    by (intro extract_plain_text_found) simp_all
next
  assume "hasText m = Inr False \<or> (hasText m = Inr True \<and> plain_text m = Inr [])"
  then show "extract_plain_text m = Some (UNSUPPORTED, StrData UNSUPPORTED_PLACEHOLDER)"
    by (rule extract_plain_text_none)
qed

theorem image_failure_drops_notification_witness:
  "hasImage mime_bad_image = Inr True \<and>
   imageData mime_bad_image = Inr (Some (QImage (Inl ExternalError))) \<and>
   save_png (QImage (Inl ExternalError)) = Inl ExternalError \<and>
   extract_content mime_bad_image = None \<and>
   on_clipboard_change length_digest 1 (Inr (Some mime_bad_image)) fresh_monitor = fresh_monitor \<and>
   on_clipboard_change_calls length_digest 1 (Inr (Some mime_bad_image)) fresh_monitor = [] \<and>
   hasImage mime_locked = Inl ExternalError \<and> extract_content mime_locked = None \<and>
   hasImage mime_image_and_html = Inr True \<and>
   imageData mime_image_and_html = Inr (Some (QImage (Inr [1, 2]))) \<and>
   extract_content mime_image_and_html = Some (IMAGE, BytesData [1, 2]) \<and>
   extract_content (mime_image_and_html\<lparr>hasHtml := Inr False, html := Inr [],
       hasText := Inl ExternalError, plain_text := Inr []\<rparr>) =
     extract_content mime_image_and_html \<and>
   hasImage mime_html_a = Inr False \<and> hasHtml mime_html_a = Inr True \<and>
   html mime_html_a = Inr [97] \<and>
   extract_content mime_html_a = Some (RICH_TEXT, StrData [97]) \<and>
   extract_html (mime_html_a\<lparr>hasText := Inl ExternalError, plain_text := Inr []\<rparr>) =
     extract_html mime_html_a \<and>
   hasImage mime_text_a = Inr False \<and> hasHtml mime_text_a = Inr False \<and>
   hasText mime_text_a = Inr True \<and> plain_text mime_text_a = Inr [97] \<and>
   extract_content mime_text_a = Some (TEXT, StrData [97])"
proof -
  have b: "hasImage mime_bad_image = Inr True"
    "imageData mime_bad_image = Inr (Some (QImage (Inl ExternalError)))"
    "save_png (QImage (Inl ExternalError)) = Inl ExternalError"
    by (simp_all add: mime_bad_image_def)
  have l: "hasImage mime_locked = Inl ExternalError" by (simp add: mime_locked_def)
  have i: "hasImage mime_image_and_html = Inr True"
    "imageData mime_image_and_html = Inr (Some (QImage (Inr [1, 2])))"
    "save_png (QImage (Inr [1, 2])) = Inr [1, 2]"
    by (simp_all add: mime_image_and_html_def)
  have r: "hasImage mime_html_a = Inr False" "hasHtml mime_html_a = Inr True"
    "html mime_html_a = Inr [97]"
    by (simp_all add: mime_html_a_def)
  have t: "hasImage mime_text_a = Inr False" "hasHtml mime_text_a = Inr False"
    "hasText mime_text_a = Inr True" "plain_text mime_text_a = Inr [97]"
    by (simp_all add: mime_text_a_def)
  from image_failure_drops_notification[where m = mime_bad_image and e = ExternalError
      and img = "QImage (Inl ExternalError)" and H = length_digest and now = 1
      and s = fresh_monitor] b
  have c1: "extract_content mime_bad_image = None \<and>
     on_clipboard_change length_digest 1 (Inr (Some mime_bad_image)) fresh_monitor = fresh_monitor \<and>
     on_clipboard_change_calls length_digest 1 (Inr (Some mime_bad_image)) fresh_monitor = []"
    by simp
  from image_failure_drops_notification[where m = mime_locked and e = ExternalError] l
  have c2: "extract_content mime_locked = None" by simp
  from image_failure_drops_notification[where m = mime_image_and_html
      and img = "QImage (Inr [1, 2])" and bs = "[1, 2]" and a = "Inr False" and b = "Inr []"
      and c = "Inl ExternalError" and d = "Inr []"] i
  have c3: "extract_content mime_image_and_html = Some (IMAGE, BytesData [1, 2]) \<and>
     extract_content (mime_image_and_html\<lparr>hasHtml := Inr False, html := Inr [],
       hasText := Inl ExternalError, plain_text := Inr []\<rparr>) =
     extract_content mime_image_and_html"
    by simp
  from image_failure_drops_notification[where m = mime_html_a and h = "[97]"
      and c = "Inl ExternalError" and d = "Inr []"] r
  have c4: "extract_content mime_html_a = Some (RICH_TEXT, StrData [97]) \<and>
     extract_html (mime_html_a\<lparr>hasText := Inl ExternalError, plain_text := Inr []\<rparr>) =
     extract_html mime_html_a"
    by simp
  from image_failure_drops_notification[where m = mime_text_a and t = "[97]"] t
  have c5: "extract_content mime_text_a = Some (TEXT, StrData [97])" by simp
  from b l i(1,2) r t c1 c2 c3 c4 c5 show ?thesis by simp
qed

section \<open>Properties of permission monitoring\<close>

lemma timer_ticks_append:
  "timer_ticks (ts @ us) s =
     (case timer_ticks ts s of Inl e \<Rightarrow> Inl e | Inr s' \<Rightarrow> timer_ticks us s')"
  by (induction ts arbitrary: s) (auto split: sum.splits)

subsection \<open>The revocation notification\<close>

lemma handle_permission_loss_notified:
  "permission_revocation_notified (handle_permission_loss now p s)"
  by (simp add: handle_permission_loss_def start_permission_monitoring_def Let_def)

lemma handle_permission_loss_count:
  "revoked_notifications (handle_permission_loss now p s) =
     (if permission_revocation_notified s then revoked_notifications s
      else revoked_notifications s + 1)"
  by (simp add: handle_permission_loss_def start_permission_monitoring_def Let_def
      revoked_notifications_def)

lemma check_permission_revocation_count:
  "revoked_notifications (check_permission_revocation hp now p s) =
     (if \<not> hp \<and> last_permission_state s \<and> \<not> permission_revocation_notified s
      then revoked_notifications s + 1 else revoked_notifications s)"
  by (simp add: check_permission_revocation_def handle_permission_loss_count)
     (simp add: revoked_notifications_def)

lemma check_permission_revocation_notified:
  "permission_revocation_notified (check_permission_revocation hp now p s) =
     (if hp then False
      else if last_permission_state s then True
      else permission_revocation_notified s)"
  by (simp add: check_permission_revocation_def handle_permission_loss_notified)

lemma check_permission_status_count:
  "revoked_notifications (state_after (check_permission_status hp s)) = revoked_notifications s"
  by (simp add: check_permission_status_def state_after_def Let_def revoked_notifications_def
      split: option.splits)

lemma check_permission_status_notified:
  "permission_revocation_notified (state_after (check_permission_status hp s)) =
     (if hp \<and> initial_permission_state s \<noteq> None then False
      else permission_revocation_notified s)"
  by (auto simp: check_permission_status_def state_after_def Let_def split: option.splits)

lemma state_after_simps:
  "state_after (Inr s) = s" "state_after (Inl (e, s)) = s"
  by (simp_all add: state_after_def)

lemma state_after_on_timer_tick:
  "state_after (on_timer_tick t s) =
     (if permission_monitoring_active s then
        (if tick_time t - permission_last_check_time s \<ge> 2 then
           state_after (check_permission_status (has_permission t)
             (s\<lparr>permission_last_check_time := tick_time t\<rparr>))
         else s)
      else if tick_time t - revocation_last_check_time s \<ge> revocation_check_interval s then
        check_permission_revocation (has_permission t) (monitor_time t) (monitor_probe t)
          (s\<lparr>revocation_last_check_time := tick_time t\<rparr>)
      else s)"
  by (simp add: on_timer_tick_def state_after_simps)

text \<open>One tick: how many notifications it adds, and what it does to the guard.\<close>

lemma on_timer_tick_count:
  "revoked_notifications (state_after (on_timer_tick t s)) =
     (if \<not> permission_monitoring_active s \<and>
         tick_time t - revocation_last_check_time s \<ge> revocation_check_interval s \<and>
         \<not> has_permission t \<and> last_permission_state s \<and> \<not> permission_revocation_notified s
      then revoked_notifications s + 1 else revoked_notifications s)"
proof -
  have a: "revoked_notifications (s\<lparr>permission_last_check_time := x\<rparr>) = revoked_notifications s"
    for x by (simp add: revoked_notifications_def)
  have b: "revoked_notifications (s\<lparr>revocation_last_check_time := x\<rparr>) = revoked_notifications s"
    for x by (simp add: revoked_notifications_def)
  show ?thesis
    by (simp add: state_after_on_timer_tick check_permission_status_count
        check_permission_revocation_count a b)
qed

lemma on_timer_tick_notified:
  "\<not> has_permission t \<Longrightarrow> permission_revocation_notified s \<Longrightarrow>
   permission_revocation_notified (state_after (on_timer_tick t s))"
  by (simp add: state_after_on_timer_tick check_permission_status_notified
      check_permission_revocation_notified)

lemma on_timer_tick_guard:
  assumes "permission_revocation_notified s"
    and "\<not> permission_revocation_notified (state_after (on_timer_tick t s))"
  shows "has_permission t"
  using assms on_timer_tick_notified[of t s] by blast

lemma on_timer_tick_denied_notified:
  assumes "denied t"
  shows "(permission_revocation_notified s \<longrightarrow>
            permission_revocation_notified (state_after (on_timer_tick t s))) \<and>
         (revoked_notifications (state_after (on_timer_tick t s)) \<noteq> revoked_notifications s \<longrightarrow>
            permission_revocation_notified (state_after (on_timer_tick t s)))"
proof (intro conjI impI)
  assume "permission_revocation_notified s"
  with assms show "permission_revocation_notified (state_after (on_timer_tick t s))"
    by (simp add: on_timer_tick_notified denied_def)
next
  assume "revoked_notifications (state_after (on_timer_tick t s)) \<noteq> revoked_notifications s"
  then have "\<not> permission_monitoring_active s \<and>
      tick_time t - revocation_last_check_time s \<ge> revocation_check_interval s \<and>
      \<not> has_permission t \<and> last_permission_state s"
    by (simp add: on_timer_tick_count split: if_splits)
  then show "permission_revocation_notified (state_after (on_timer_tick t s))"
    by (simp add: state_after_on_timer_tick check_permission_revocation_notified)
qed

text \<open>
  While the capability stays denied, the notifications made so far plus the one the
  guard still allows do not grow.
\<close>

lemma timer_ticks_denied_bound:
  assumes "list_all denied ts"
  shows "revoked_notifications (state_after (timer_ticks ts s)) \<le>
     (if permission_revocation_notified s then revoked_notifications s
      else revoked_notifications s + 1)"
  using assms
proof (induction ts arbitrary: s)
  case Nil
  then show ?case by (simp add: state_after_def)
next
  case (Cons t ts)
  let ?r = "on_timer_tick t s"
  let ?s1 = "state_after ?r"
  from Cons.prems have dt: "denied t" and dts: "list_all denied ts" by simp_all
  have step: "(if permission_revocation_notified ?s1 then revoked_notifications ?s1
      else revoked_notifications ?s1 + 1) \<le>
     (if permission_revocation_notified s then revoked_notifications s
      else revoked_notifications s + 1)"
    using on_timer_tick_denied_notified[OF dt, of s] on_timer_tick_count[of t s]
    by (auto split: if_splits)
  show ?case
  proof (cases ?r)
    case (Inl e)
    then have "state_after (timer_ticks (t # ts) s) = ?s1" by (simp add: state_after_def)
    with step show ?thesis by (auto split: if_splits)
  next
    case (Inr s1)
    then have "state_after (timer_ticks (t # ts) s) = state_after (timer_ticks ts ?s1)"
      by (simp add: state_after_def)
    with Cons.IH[OF dts, of ?s1] step show ?thesis by (auto split: if_splits)
  qed
qed

text \<open>The sequence true, false, false, false on four ticks that each perform a check.\<close>

lemma four_ticks:
  assumes idle: "\<not> permission_monitoring_active s"
    and p: "has_permission t1" "\<not> has_permission t2" "\<not> has_permission t3" "\<not> has_permission t4"
    and due1: "tick_time t1 - revocation_last_check_time s \<ge> revocation_check_interval s"
    and due2: "tick_time t2 - tick_time t1 \<ge> revocation_check_interval s"
    and due3: "tick_time t3 - monitor_time t2 \<ge> 2"
    and due4: "tick_time t4 - tick_time t3 \<ge> 2"
  shows "\<exists>s1 s2 s3 s4.
     on_timer_tick t1 s = Inr s1 \<and> on_timer_tick t2 s1 = Inr s2 \<and>
     on_timer_tick t3 s2 = Inr s3 \<and> on_timer_tick t4 s3 = Inr s4 \<and>
     revoked_notifications s1 = revoked_notifications s \<and>
     revoked_notifications s2 = revoked_notifications s + 1 \<and>
     revoked_notifications s3 = revoked_notifications s + 1 \<and>
     revoked_notifications s4 = revoked_notifications s + 1 \<and>
     \<not> hotkey_registered s2 \<and> permission_revocation_notified s4"
proof -
  define s1 where "s1 = check_permission_revocation True (monitor_time t1) (monitor_probe t1)
      (s\<lparr>revocation_last_check_time := tick_time t1\<rparr>)"
  have r1: "on_timer_tick t1 s = Inr s1"
    using idle p(1) due1 by (simp add: on_timer_tick_def s1_def)
  have s1: "\<not> permission_monitoring_active s1" "last_permission_state s1"
    "\<not> permission_revocation_notified s1" "revocation_last_check_time s1 = tick_time t1"
    "revocation_check_interval s1 = revocation_check_interval s"
    "revoked_notifications s1 = revoked_notifications s"
    using idle by (simp_all add: s1_def check_permission_revocation_def
        revoked_notifications_def)
  define s2 where "s2 = handle_permission_loss (monitor_time t2) (monitor_probe t2)
      (s1\<lparr>revocation_last_check_time := tick_time t2\<rparr>)"
  have r2: "on_timer_tick t2 s1 = Inr s2"
    using s1 p(2) due2 by (simp add: on_timer_tick_def s2_def check_permission_revocation_def)
  have s2: "permission_monitoring_active s2" "permission_check_count s2 = 0"
    "max_permission_checks s2 = 30" "permission_last_check_time s2 = monitor_time t2"
    "initial_permission_state s2 = Some (monitor_probe t2)"
    "permission_revocation_notified s2" "\<not> hotkey_registered s2"
    "revoked_notifications s2 = revoked_notifications s + 1"
    using s1 by (simp_all add: s2_def handle_permission_loss_def
        start_permission_monitoring_def Let_def revoked_notifications_def)
  define s3 where "s3 = s2\<lparr>permission_last_check_time := tick_time t3,
      permission_check_count := 1, last_permission_state := False\<rparr>"
  have r3: "on_timer_tick t3 s2 = Inr s3"
    using s2 p(3) due3 by (simp add: on_timer_tick_def check_permission_status_def s3_def)
  have s3: "permission_monitoring_active s3" "permission_check_count s3 = 1"
    "max_permission_checks s3 = 30" "permission_last_check_time s3 = tick_time t3"
    "initial_permission_state s3 = Some (monitor_probe t2)"
    "permission_revocation_notified s3"
    "revoked_notifications s3 = revoked_notifications s + 1"
    using s2 by (simp_all add: s3_def revoked_notifications_def)
  define s4 where "s4 = s3\<lparr>permission_last_check_time := tick_time t4,
      permission_check_count := 2, last_permission_state := False\<rparr>"
  have r4: "on_timer_tick t4 s3 = Inr s4"
    using s3 p(4) due4 by (simp add: on_timer_tick_def check_permission_status_def s4_def)
  have s4: "permission_revocation_notified s4"
    "revoked_notifications s4 = revoked_notifications s + 1"
    using s3 by (simp_all add: s4_def revoked_notifications_def)
  from r1 r2 r3 r4 s1(6) s2(8) s3(7) s4 s2(7) show ?thesis by blast
qed

text \<open>
  Claim C3 (the revocation notification fires once per episode).  First part, the
  sequence of the claim: from a state in which grant polling is not active, let four
  ticks each perform their check and let the probe answer true, false, false, false.
  Then every tick returns, the first adds no permission-revoked notification, the
  second adds exactly one (and unregisters the hotkey), the third and fourth add none.
  Second part: one tick adds a notification exactly when it performs the passive check,
  the probe answers false, the last observed state was granted and the guard is clear;
  otherwise it adds none.  Third part: over any run of ticks on which the probe answers
  false, at most one notification is added, and none when the guard was already set.
  Fourth part: a tick clears a set guard only when its probe answers true.
\<close>

theorem revocation_notified_once:
  "(\<not> permission_monitoring_active s \<and>
    has_permission t1 \<and> \<not> has_permission t2 \<and> \<not> has_permission t3 \<and> \<not> has_permission t4 \<and>
    tick_time t1 - revocation_last_check_time s \<ge> revocation_check_interval s \<and>
    tick_time t2 - tick_time t1 \<ge> revocation_check_interval s \<and>
    tick_time t3 - monitor_time t2 \<ge> 2 \<and> tick_time t4 - tick_time t3 \<ge> 2
    \<longrightarrow> (\<exists>s1 s2 s3 s4.
          on_timer_tick t1 s = Inr s1 \<and> on_timer_tick t2 s1 = Inr s2 \<and>
          on_timer_tick t3 s2 = Inr s3 \<and> on_timer_tick t4 s3 = Inr s4 \<and>
          timer_ticks [t1, t2, t3, t4] s = Inr s4 \<and>
          revoked_notifications s1 = revoked_notifications s \<and>
          revoked_notifications s2 = revoked_notifications s + 1 \<and>
          revoked_notifications s3 = revoked_notifications s + 1 \<and>
          revoked_notifications s4 = revoked_notifications s + 1 \<and>
          \<not> hotkey_registered s2 \<and> permission_revocation_notified s4)) \<and>
   revoked_notifications (state_after (on_timer_tick t s)) =
     (if \<not> permission_monitoring_active s \<and>
         tick_time t - revocation_last_check_time s \<ge> revocation_check_interval s \<and>
         \<not> has_permission t \<and> last_permission_state s \<and> \<not> permission_revocation_notified s
      then revoked_notifications s + 1 else revoked_notifications s) \<and>
   (list_all denied ts
    \<longrightarrow> revoked_notifications (state_after (timer_ticks ts s)) \<le>
          (if permission_revocation_notified s then revoked_notifications s
           else revoked_notifications s + 1)) \<and>
   (permission_revocation_notified s \<and>
    \<not> permission_revocation_notified (state_after (on_timer_tick t s))
    \<longrightarrow> has_permission t)"
proof (intro conjI impI)
  assume a: "\<not> permission_monitoring_active s \<and>
    has_permission t1 \<and> \<not> has_permission t2 \<and> \<not> has_permission t3 \<and> \<not> has_permission t4 \<and>
    tick_time t1 - revocation_last_check_time s \<ge> revocation_check_interval s \<and>
    tick_time t2 - tick_time t1 \<ge> revocation_check_interval s \<and>
    tick_time t3 - monitor_time t2 \<ge> 2 \<and> tick_time t4 - tick_time t3 \<ge> 2"
  then have "\<exists>s1 s2 s3 s4.
     on_timer_tick t1 s = Inr s1 \<and> on_timer_tick t2 s1 = Inr s2 \<and>
     on_timer_tick t3 s2 = Inr s3 \<and> on_timer_tick t4 s3 = Inr s4 \<and>
     revoked_notifications s1 = revoked_notifications s \<and>
     revoked_notifications s2 = revoked_notifications s + 1 \<and>
     revoked_notifications s3 = revoked_notifications s + 1 \<and>
     revoked_notifications s4 = revoked_notifications s + 1 \<and>
     \<not> hotkey_registered s2 \<and> permission_revocation_notified s4"
    by (intro four_ticks) simp_all
  then obtain s1 s2 s3 s4 where r:
     "on_timer_tick t1 s = Inr s1" "on_timer_tick t2 s1 = Inr s2"
     "on_timer_tick t3 s2 = Inr s3" "on_timer_tick t4 s3 = Inr s4"
     and c: "revoked_notifications s1 = revoked_notifications s"
     "revoked_notifications s2 = revoked_notifications s + 1"
     "revoked_notifications s3 = revoked_notifications s + 1"
     "revoked_notifications s4 = revoked_notifications s + 1"
     "\<not> hotkey_registered s2" "permission_revocation_notified s4"
    by blast
  from r have "timer_ticks [t1, t2, t3, t4] s = Inr s4" by simp
  with r c show "\<exists>s1 s2 s3 s4.
          on_timer_tick t1 s = Inr s1 \<and> on_timer_tick t2 s1 = Inr s2 \<and>
          on_timer_tick t3 s2 = Inr s3 \<and> on_timer_tick t4 s3 = Inr s4 \<and>
          timer_ticks [t1, t2, t3, t4] s = Inr s4 \<and>
          revoked_notifications s1 = revoked_notifications s \<and>
          revoked_notifications s2 = revoked_notifications s + 1 \<and>
          revoked_notifications s3 = revoked_notifications s + 1 \<and>
          revoked_notifications s4 = revoked_notifications s + 1 \<and>
          \<not> hotkey_registered s2 \<and> permission_revocation_notified s4"
    by blast
next
  show "revoked_notifications (state_after (on_timer_tick t s)) =
     (if \<not> permission_monitoring_active s \<and>
         tick_time t - revocation_last_check_time s \<ge> revocation_check_interval s \<and>
         \<not> has_permission t \<and> last_permission_state s \<and> \<not> permission_revocation_notified s
      then revoked_notifications s + 1 else revoked_notifications s)"
    by (rule on_timer_tick_count)
next
  assume "list_all denied ts"
  then show "revoked_notifications (state_after (timer_ticks ts s)) \<le>
          (if permission_revocation_notified s then revoked_notifications s
           else revoked_notifications s + 1)"
    by (rule timer_ticks_denied_bound)
next
  assume "permission_revocation_notified s \<and>
    \<not> permission_revocation_notified (state_after (on_timer_tick t s))"
  then show "has_permission t" using on_timer_tick_guard[of s t] by blast
qed

lemma active_app_facts:
  "\<not> permission_monitoring_active active_app" "revocation_last_check_time active_app = 0"
  "revocation_check_interval active_app = 5" "revoked_notifications active_app = 0"
  "\<not> permission_revocation_notified active_app" "hotkey_registered active_app"
  by (simp_all add: active_app_def register_hotkey_def MainApplication_init_def
      revoked_notifications_def)

theorem revocation_notified_once_witness:
  "\<not> permission_monitoring_active active_app \<and>
   has_permission (tick_at 6 True) \<and> \<not> has_permission (tick_at 12 False) \<and>
   \<not> has_permission (tick_at 18 False) \<and> \<not> has_permission (tick_at 24 False) \<and>
   tick_time (tick_at 6 True) - revocation_last_check_time active_app
     \<ge> revocation_check_interval active_app \<and>
   tick_time (tick_at 12 False) - tick_time (tick_at 6 True)
     \<ge> revocation_check_interval active_app \<and>
   tick_time (tick_at 18 False) - monitor_time (tick_at 12 False) \<ge> 2 \<and>
   tick_time (tick_at 24 False) - tick_time (tick_at 18 False) \<ge> 2 \<and>
   (\<exists>s4. timer_ticks [tick_at 6 True, tick_at 12 False, tick_at 18 False, tick_at 24 False]
            active_app = Inr s4 \<and>
      revoked_notifications s4 = 1 \<and> permission_revocation_notified s4) \<and>
   list_all denied [tick_at 12 False, tick_at 18 False, tick_at 24 False] \<and>
   revoked_notifications (state_after
     (timer_ticks [tick_at 12 False, tick_at 18 False, tick_at 24 False] active_app)) \<le> 1"
proof -
  have h: "\<not> permission_monitoring_active active_app \<and>
      has_permission (tick_at 6 True) \<and> \<not> has_permission (tick_at 12 False) \<and>
      \<not> has_permission (tick_at 18 False) \<and> \<not> has_permission (tick_at 24 False) \<and>
      tick_time (tick_at 6 True) - revocation_last_check_time active_app
        \<ge> revocation_check_interval active_app \<and>
      tick_time (tick_at 12 False) - tick_time (tick_at 6 True)
        \<ge> revocation_check_interval active_app \<and>
      tick_time (tick_at 18 False) - monitor_time (tick_at 12 False) \<ge> 2 \<and>
      tick_time (tick_at 24 False) - tick_time (tick_at 18 False) \<ge> 2"
    by (simp add: active_app_facts tick_at_def)
  have d: "list_all denied [tick_at 12 False, tick_at 18 False, tick_at 24 False]"
    by (simp add: denied_def tick_at_def)
  note inst = revocation_notified_once[where s = active_app and ?t1.0 = "tick_at 6 True"
      and ?t2.0 = "tick_at 12 False" and ?t3.0 = "tick_at 18 False"
      and ?t4.0 = "tick_at 24 False"
      and ts = "[tick_at 12 False, tick_at 18 False, tick_at 24 False]"]
  from inst h have "\<exists>s4. timer_ticks [tick_at 6 True, tick_at 12 False, tick_at 18 False,
      tick_at 24 False] active_app = Inr s4 \<and>
      revoked_notifications s4 = 1 \<and> permission_revocation_notified s4"
    by (auto simp: active_app_facts)
  moreover from inst d have "revoked_notifications (state_after
     (timer_ticks [tick_at 12 False, tick_at 18 False, tick_at 24 False] active_app)) \<le> 1"
    by (simp add: active_app_facts)
  ultimately show ?thesis using h d by blast
qed

subsection \<open>Bounded grant polling\<close>

lemma start_denied_polling:
  assumes "\<not> permission_monitoring_active s"
  shows "denied_polling (start_permission_monitoring t0 False s)"
    and "permission_check_count (start_permission_monitoring t0 False s) = 0"
    and "permission_last_check_time (start_permission_monitoring t0 False s) = t0"
  using assms by (simp_all add: start_permission_monitoring_def denied_polling_def)

text \<open>
  One tick with the permission denied, in a state of denied polling: it returns, the
  state is again one of denied polling, the counter does not go back, and a tick that is
  due while polling is active makes exactly one check.
\<close>

lemma tick_denied_polling:
  assumes dp: "denied_polling s" and dt: "denied t"
  shows "\<exists>s'. on_timer_tick t s = Inr s' \<and> denied_polling s' \<and>
     permission_check_count s \<le> permission_check_count s' \<and>
     (permission_monitoring_active s \<and> tick_time t - permission_last_check_time s \<ge> 2 \<longrightarrow>
        permission_check_count s' = permission_check_count s + 1 \<and>
        permission_last_check_time s' = tick_time t)"
proof (cases "permission_monitoring_active s")
  case True
  show ?thesis
  proof (cases "tick_time t - permission_last_check_time s \<ge> 2")
    case due: True
    from dp True have c: "permission_check_count s < 30" by (simp add: denied_polling_def)
    show ?thesis
    proof (cases "permission_check_count s + 1 \<ge> 30")
      case True
      with dp dt due \<open>permission_monitoring_active s\<close> c show ?thesis
        by (simp add: on_timer_tick_def check_permission_status_def denied_polling_def
            denied_def)
    next
      case False
      with dp dt due \<open>permission_monitoring_active s\<close> c show ?thesis
        by (simp add: on_timer_tick_def check_permission_status_def denied_polling_def
            denied_def)
    qed
  next
    case False
    with dp True show ?thesis by (simp add: on_timer_tick_def)
  qed
next
  case False
  with dp dt show ?thesis
    by (simp add: on_timer_tick_def check_permission_revocation_def denied_polling_def
        denied_def)
qed

lemma timer_ticks_denied_polling:
  assumes "denied_polling s" and "list_all denied ts"
  shows "\<exists>s'. timer_ticks ts s = Inr s' \<and> denied_polling s' \<and>
     permission_check_count s \<le> permission_check_count s'"
  using assms
proof (induction ts arbitrary: s)
  case Nil
  then show ?case by simp
next
  case (Cons t ts)
  from Cons.prems have dt: "denied t" and dts: "list_all denied ts" by simp_all
  from tick_denied_polling[OF Cons.prems(1) dt]
  obtain s1 where s1: "on_timer_tick t s = Inr s1" "denied_polling s1"
    "permission_check_count s \<le> permission_check_count s1" by blast
  from Cons.IH[OF s1(2) dts]
  obtain s' where s': "timer_ticks ts s1 = Inr s'" "denied_polling s'"
    "permission_check_count s1 \<le> permission_check_count s'" by blast
  from s1 s' show ?case by (intro exI[of _ s']) simp
qed

text \<open>Ticks that are all due: each makes one check, as long as the budget lasts.\<close>

lemma timer_ticks_spaced:
  assumes "denied_polling s" and "list_all denied ts"
    and "spaced (permission_last_check_time s) ts"
    and "permission_check_count s + int (length ts) \<le> 30"
  shows "\<exists>s'. timer_ticks ts s = Inr s' \<and> denied_polling s' \<and>
     permission_check_count s' = permission_check_count s + int (length ts)"
  using assms
proof (induction ts arbitrary: s)
  case Nil
  then show ?case by simp
next
  case (Cons t ts)
  from Cons.prems have dt: "denied t" and dts: "list_all denied ts"
    and due: "tick_time t - permission_last_check_time s \<ge> 2"
    and sp: "spaced (tick_time t) ts"
    and c: "permission_check_count s < 30"
    by simp_all
  from Cons.prems(1) c have act: "permission_monitoring_active s"
    by (simp add: denied_polling_def)
  from tick_denied_polling[OF Cons.prems(1) dt] act due
  obtain s1 where s1: "on_timer_tick t s = Inr s1" "denied_polling s1"
    "permission_check_count s1 = permission_check_count s + 1"
    "permission_last_check_time s1 = tick_time t" by blast
  from Cons.prems(4) s1(3) have b: "permission_check_count s1 + int (length ts) \<le> 30"
    by simp
  from Cons.IH[OF s1(2) dts _ b] sp s1(4)
  obtain s' where s': "timer_ticks ts s1 = Inr s'" "denied_polling s'"
    "permission_check_count s' = permission_check_count s1 + int (length ts)" by auto
  from s1 s' show ?case by (intro exI[of _ s']) simp
qed

lemma grant_stops_polling:
  assumes "permission_monitoring_active s1" and "initial_permission_state s1 = Some False"
    and "has_permission g" and "tick_time g - permission_last_check_time s1 \<ge> 2"
  shows "\<exists>s2. on_timer_tick g s1 = Inr s2 \<and> \<not> permission_monitoring_active s2 \<and>
     calls s2 = calls s1 @ [ShowRestartDialog]"
  using assms by (simp add: on_timer_tick_def check_permission_status_def)

text \<open>
  Claim C8 (bounded grant polling).  Let grant polling be started, from a state in
  which it was not active, at time \<open>t0\<close> with the capability denied.  First part: over
  any run of ticks with the permission denied, every tick returns, the polling phase
  makes at most 30 capability checks (\<open>_permission_check_count\<close> counts them) and is
  active exactly while fewer than 30 were made.  Second part: when the ticks are all
  due, each makes one check, so up to the budget the count is the number of ticks and
  after 30 ticks the polling is switched off.  Third part: once those 30 checks are
  made, any further ticks with the permission denied leave the polling off and the
  count at 30; the timer then takes the passive branch only.  Fourth part: a due check
  that observes a grant after an initially denied start switches the polling off at
  once and shows the restart dialog.
\<close>

theorem grant_polling_bounded:
  assumes "\<not> permission_monitoring_active s"
  shows
    "(list_all denied ts \<longrightarrow>
        (\<exists>s'. timer_ticks ts (start_permission_monitoring t0 False s) = Inr s' \<and>
           permission_check_count s' \<le> 30 \<and>
           permission_monitoring_active s' = (permission_check_count s' < 30))) \<and>
     (list_all denied ts \<and> spaced t0 ts \<and> length ts \<le> 30 \<longrightarrow>
        (\<exists>s'. timer_ticks ts (start_permission_monitoring t0 False s) = Inr s' \<and>
           permission_check_count s' = int (length ts) \<and>
           permission_monitoring_active s' = (length ts < 30))) \<and>
     (list_all denied (ts @ us) \<and> spaced t0 ts \<and> length ts = 30 \<longrightarrow>
        (\<exists>s'. timer_ticks (ts @ us) (start_permission_monitoring t0 False s) = Inr s' \<and>
           \<not> permission_monitoring_active s' \<and> permission_check_count s' = 30)) \<and>
     (permission_monitoring_active s1 \<and> initial_permission_state s1 = Some False \<and>
      has_permission g \<and> tick_time g - permission_last_check_time s1 \<ge> 2 \<longrightarrow>
        (\<exists>s2. on_timer_tick g s1 = Inr s2 \<and> \<not> permission_monitoring_active s2 \<and>
           calls s2 = calls s1 @ [ShowRestartDialog]))"
proof -
  let ?s0 = "start_permission_monitoring t0 False s"
  note s0 = start_denied_polling[OF assms, of t0]
  have p1: "\<exists>s'. timer_ticks ts ?s0 = Inr s' \<and> permission_check_count s' \<le> 30 \<and>
           permission_monitoring_active s' = (permission_check_count s' < 30)"
    if "list_all denied ts"
    using timer_ticks_denied_polling[OF s0(1) that] by (auto simp: denied_polling_def)
  have p2: "\<exists>s'. timer_ticks ts ?s0 = Inr s' \<and> denied_polling s' \<and>
           permission_check_count s' = int (length ts)"
    if "list_all denied ts" "spaced t0 ts" "length ts \<le> 30" for ts
    using timer_ticks_spaced[OF s0(1) that(1)] that(2,3) s0(2,3) by simp
  have p2': "\<exists>s'. timer_ticks ts ?s0 = Inr s' \<and>
           permission_check_count s' = int (length ts) \<and>
           permission_monitoring_active s' = (length ts < 30)"
    if "list_all denied ts" "spaced t0 ts" "length ts \<le> 30"
    using p2[OF that] by (auto simp: denied_polling_def)
  have p3: "\<exists>s'. timer_ticks (ts @ us) ?s0 = Inr s' \<and>
           \<not> permission_monitoring_active s' \<and> permission_check_count s' = 30"
    if "list_all denied (ts @ us)" "spaced t0 ts" "length ts = 30"
  proof -
    from that(1) have dts: "list_all denied ts" and dus: "list_all denied us" by simp_all
    from p2[OF dts that(2)] that(3)
    obtain sm where sm: "timer_ticks ts ?s0 = Inr sm" "denied_polling sm"
      "permission_check_count sm = 30" by auto
    from timer_ticks_denied_polling[OF sm(2) dus]
    obtain s' where s': "timer_ticks us sm = Inr s'" "denied_polling s'"
      "permission_check_count sm \<le> permission_check_count s'" by blast
    from s'(2,3) sm(3) have "permission_check_count s' = 30" "\<not> permission_monitoring_active s'"
      by (simp_all add: denied_polling_def)
    with sm(1) s'(1) show ?thesis by (simp add: timer_ticks_append)
  qed
  from p1 p2' p3 grant_stops_polling[of s1 g] show ?thesis by blast
qed

lemma spaced_every_two:
  "spaced (2 * real k) (map (\<lambda>i. tick_at (2 * real i) False) [Suc k..<Suc k + n])"
proof (induction n arbitrary: k)
  case 0
  then show ?case by simp
next
  case (Suc n)
  have "[Suc k..<Suc k + Suc n] = Suc k # [Suc (Suc k)..<Suc (Suc k) + n]"
    by (simp add: upt_conv_Cons)
  with Suc[of "Suc k"] show ?case by (simp add: tick_at_def)
qed

lemma polling_ticks_facts:
  "list_all denied (polling_ticks n)" "spaced 0 (polling_ticks n)" "length (polling_ticks n) = n"
proof -
  show "list_all denied (polling_ticks n)"
    by (simp add: polling_ticks_def list_all_iff denied_def tick_at_def)
  show "spaced 0 (polling_ticks n)"
    using spaced_every_two[of 0 n] by (simp add: polling_ticks_def)
  show "length (polling_ticks n) = n" by (simp add: polling_ticks_def)
qed

theorem grant_polling_bounded_witness:
  "\<not> permission_monitoring_active (MainApplication_init False) \<and>
   list_all denied (polling_ticks 30) \<and> spaced 0 (polling_ticks 30) \<and>
   length (polling_ticks 30) = 30 \<and>
   (\<exists>s'. timer_ticks (polling_ticks 30)
            (start_permission_monitoring 0 False (MainApplication_init False)) = Inr s' \<and>
      permission_check_count s' = 30 \<and> \<not> permission_monitoring_active s') \<and>
   list_all denied (polling_ticks 7) \<and> spaced 0 (polling_ticks 7) \<and>
   (\<exists>s'. timer_ticks (polling_ticks 7)
            (start_permission_monitoring 0 False (MainApplication_init False)) = Inr s' \<and>
      permission_check_count s' = 7 \<and> permission_monitoring_active s')"
proof -
  have h: "\<not> permission_monitoring_active (MainApplication_init False)"
    by (simp add: MainApplication_init_def)
  note f30 = polling_ticks_facts[of 30]
  note f7 = polling_ticks_facts[of 7]
  from grant_polling_bounded[OF h, where ts = "polling_ticks 30" and ?t0.0 = 0] f30
  have a: "\<exists>s'. timer_ticks (polling_ticks 30)
            (start_permission_monitoring 0 False (MainApplication_init False)) = Inr s' \<and>
      permission_check_count s' = 30 \<and> \<not> permission_monitoring_active s'"
    by simp
  from grant_polling_bounded[OF h, where ts = "polling_ticks 7" and ?t0.0 = 0] f7
  have b: "\<exists>s'. timer_ticks (polling_ticks 7)
            (start_permission_monitoring 0 False (MainApplication_init False)) = Inr s' \<and>
      permission_check_count s' = 7 \<and> permission_monitoring_active s'"
    by simp
  from a b h f30 f7(1,2) show ?thesis by blast
qed

end
